theory Spec2Isabelle
  imports Main "HOL-Library.Word" "HOL-Library.AList" "HOL-Library.List_Lexorder"
    "HOL-Library.Product_Lexorder" "HOL-Library.Sublist"
begin

unbundle bit_operations_syntax

section \<open>Basic data\<close>

text \<open>
  Go byte slices are lists of 8-bit words. A \<^verbatim>\<open>common.Hash\<close> is a 32-byte array and a
  \<^verbatim>\<open>common.Address\<close> a 20-byte array; both are byte lists here. A slice that the
  code may leave \<^verbatim>\<open>nil\<close> is a \<open>bytes option\<close> with \<open>None\<close> for \<^verbatim>\<open>nil\<close>; \<^verbatim>\<open>len\<close> of
  it is \<open>slen\<close>.
\<close>

type_synonym byte = "8 word"
type_synonym bytes = "byte list"
type_synonym hash = bytes
type_synonym address = bytes
type_synonym slice = "bytes option"

fun slen :: "slice \<Rightarrow> nat" where
  "slen None = 0"
| "slen (Some bs) = length bs"

text \<open>
  Errors are values. \<open>ExternalError\<close> stands for an error handed back by a collaborator
  (database, hasher, decoder); the other two are the errors that the code builds itself
  with \<^verbatim>\<open>fmt.Errorf\<close>.
\<close>

datatype error =
    ExternalError nat
  | MismatchingHash bytes bytes
  | MismatchedStorageRoot hash hash hash
  | UnexpectedResolution

text \<open>A call either returns its Go result tuple or panics.\<close>

datatype 'a outcome = Return 'a | Panic

datatype bucket =
    AccountsBucket | AccountsHistoryBucket | StorageBucket | StorageHistoryBucket
  | CodeBucket | PreimagePrefix

text \<open>
  \<^verbatim>\<open>accounts.Account\<close> is declared outside the files at hand; the fields are the ones
  the code reads and writes (\<^verbatim>\<open>Initialised\<close>, \<^verbatim>\<open>Nonce\<close>, \<^verbatim>\<open>Balance\<close>, \<^verbatim>\<open>Root\<close>,
  \<^verbatim>\<open>CodeHash\<close>, and the incarnation set by \<^verbatim>\<open>SetIncarnation\<close>).
\<close>

record Account =
  Initialised :: bool
  Nonce :: "64 word"
  Balance :: int
  Root :: hash
  CodeHash :: hash
  Incarnation :: "64 word"

section \<open>Buffer\<close>

text \<open>
  Go maps are association lists (the list order is the order in which \<^verbatim>\<open>range\<close> visits
  the keys, which Go leaves open), sets are lists. A \<^verbatim>\<open>*accounts.Account\<close> is an
  address into the account heap of the state, \<open>None\<close> for \<^verbatim>\<open>nil\<close>.
\<close>

record Buffer =
  storageUpdates :: "(hash \<times> (hash \<times> slice) list) list"
  storageReads :: "(hash \<times> hash list) list"
  accountUpdates :: "(hash \<times> nat option) list"
  accountReads :: "hash list"
  deleted :: "hash list"
  created :: "hash list"

definition initialise :: "Buffer" where
  "initialise = \<lparr> storageUpdates = [], storageReads = [], accountUpdates = [],
                  accountReads = [], deleted = [], created = [] \<rparr>"

text \<open>The inner loop of \<^verbatim>\<open>merge\<close> over one map of storage updates: \<^verbatim>\<open>m[keyHash] = v\<close>.\<close>

fun merge_inner :: "(hash \<times> slice) list \<Rightarrow> (hash \<times> slice) list \<Rightarrow> (hash \<times> slice) list" where
  "merge_inner m [] = m"
| "merge_inner m ((keyHash, v) # om) = merge_inner (AList.update keyHash v m) om"

fun merge_storageUpdates ::
  "(hash \<times> (hash \<times> slice) list) list \<Rightarrow> (hash \<times> (hash \<times> slice) list) list
     \<Rightarrow> (hash \<times> (hash \<times> slice) list) list" where
  "merge_storageUpdates su [] = su"
| "merge_storageUpdates su ((addrHash, om) # rest) =
     (let m = (case map_of su addrHash of None \<Rightarrow> [] | Some m0 \<Rightarrow> m0)
      in merge_storageUpdates (AList.update addrHash (merge_inner m om) su) rest)"

fun merge_reads_inner :: "hash list \<Rightarrow> hash list \<Rightarrow> hash list" where
  "merge_reads_inner m [] = m"
| "merge_reads_inner m (keyHash # om) = merge_reads_inner (List.insert keyHash m) om"

fun merge_storageReads ::
  "(hash \<times> hash list) list \<Rightarrow> (hash \<times> hash list) list \<Rightarrow> (hash \<times> hash list) list" where
  "merge_storageReads sr [] = sr"
| "merge_storageReads sr ((addrHash, om) # rest) =
     (let m = (case map_of sr addrHash of None \<Rightarrow> [] | Some m0 \<Rightarrow> m0)
      in merge_storageReads (AList.update addrHash (merge_reads_inner m om) sr) rest)"

fun merge_accountUpdates ::
  "(hash \<times> nat option) list \<Rightarrow> (hash \<times> nat option) list \<Rightarrow> (hash \<times> nat option) list" where
  "merge_accountUpdates au [] = au"
| "merge_accountUpdates au ((addrHash, account) # rest) =
     merge_accountUpdates (AList.update addrHash account au) rest"

definition merge :: "Buffer \<Rightarrow> Buffer \<Rightarrow> Buffer" where
  "merge b other =
     \<lparr> storageUpdates = merge_storageUpdates (storageUpdates b) (storageUpdates other),
       storageReads = merge_storageReads (storageReads b) (storageReads other),
       accountUpdates = merge_accountUpdates (accountUpdates b) (accountUpdates other),
       accountReads = merge_reads_inner (accountReads b) (accountReads other),
       deleted = merge_reads_inner (deleted b) (deleted other),
       created = merge_reads_inner (created b) (created other) \<rparr>"

section \<open>TrieDbState\<close>

text \<open>
  The trie (\<^verbatim>\<open>trie.Trie\<close>), the database (\<^verbatim>\<open>ethdb.Database\<close>), the hasher
  (\<^verbatim>\<open>common.HashData\<close>), the constant \<^verbatim>\<open>trie.EmptyRoot\<close>, the account decoder and
  the storage-key builder are not part of the files at hand. They are parameters: a record of functions over an arbitrary trie
  state \<open>'t\<close> and an arbitrary database state \<open>'db\<close>. A Go result pair \<^verbatim>\<open>(value, err)\<close>
  is a pair with an \<open>error option\<close>.

  \<open>db_Walk\<close> and \<open>db_WalkAsOf\<close> give what the walk of a bucket would hand to its walker:
  the entries of the range in the order of the walk, or the error with which the
  database fails.
\<close>

record ('t, 'db) env =
  HashData :: "bytes \<Rightarrow> hash \<times> error option"
  EmptyRoot :: hash
  DecodeForStorage :: "bytes \<Rightarrow> Account \<times> error option"
  GenerateCompositeStorageKey :: "hash \<Rightarrow> 64 word \<Rightarrow> hash \<Rightarrow> bytes"
  t_Get :: "'t \<Rightarrow> bytes \<Rightarrow> slice \<times> bool"
  t_GetAccount :: "'t \<Rightarrow> bytes \<Rightarrow> Account option \<times> bool"
  t_Update :: "'t \<Rightarrow> bytes \<Rightarrow> bytes \<Rightarrow> 64 word \<Rightarrow> 't"
  t_Delete :: "'t \<Rightarrow> bytes \<Rightarrow> 64 word \<Rightarrow> 't"
  t_DeleteSubtree :: "'t \<Rightarrow> bytes \<Rightarrow> 64 word \<Rightarrow> 't"
  t_UpdateAccount :: "'t \<Rightarrow> bytes \<Rightarrow> Account \<Rightarrow> 't"
  t_DeepHash :: "'t \<Rightarrow> bytes \<Rightarrow> bool \<times> hash"
  t_Hash :: "'t \<Rightarrow> hash"
  db_Get :: "'db \<Rightarrow> bucket \<Rightarrow> bytes \<Rightarrow> slice \<times> error option"
  db_GetAsOf :: "'db \<Rightarrow> bucket \<Rightarrow> bucket \<Rightarrow> bytes \<Rightarrow> 64 word \<Rightarrow> slice \<times> error option"
  db_Put :: "'db \<Rightarrow> bucket \<Rightarrow> bytes \<Rightarrow> bytes \<Rightarrow> 'db \<times> error option"
  db_Walk :: "'db \<Rightarrow> bucket \<Rightarrow> bytes \<Rightarrow> nat \<Rightarrow> error + (bytes \<times> bytes) list"
  db_WalkAsOf :: "'db \<Rightarrow> bucket \<Rightarrow> bucket \<Rightarrow> bytes \<Rightarrow> nat \<Rightarrow> 64 word
                    \<Rightarrow> error + (bytes \<times> bytes) list"

text \<open>
  The state. \<^verbatim>\<open>buffers\<close>, \<^verbatim>\<open>currentBuffer\<close> and \<^verbatim>\<open>aggregateBuffer\<close> hold pointers:
  a \<^verbatim>\<open>*Buffer\<close> is an address into \<open>bufHeap\<close>, a \<^verbatim>\<open>*accounts.Account\<close> an address into
  \<open>accHeap\<close>. The mutex, the code caches, the proof generator and the pruner are not
  touched by the functions below and are left out.
\<close>

record ('t, 'db) TrieDbState =
  tds_t :: 't
  tds_db :: 'db
  blockNr :: "64 word"
  buffers :: "nat list"
  aggregateBuffer :: "nat option"
  currentBuffer :: "nat option"
  historical :: bool
  noHistory :: bool
  resolveReads :: bool
  savePreimages :: bool
  bufHeap :: "nat \<Rightarrow> Buffer"
  accHeap :: "nat \<Rightarrow> Account"

definition savePreimage ::
  "('t, 'db) env \<Rightarrow> bool \<Rightarrow> bytes \<Rightarrow> bytes \<Rightarrow> ('t, 'db) TrieDbState
     \<Rightarrow> error option \<times> ('t, 'db) TrieDbState" where
  "savePreimage E save h preimage tds =
     (if \<not> save \<or> \<not> savePreimages tds then (None, tds)
      else if fst (db_Get E (tds_db tds) PreimagePrefix h) \<noteq> None then (None, tds)
      else (case db_Put E (tds_db tds) PreimagePrefix h preimage of
              (db', err) \<Rightarrow> (err, tds\<lparr>tds_db := db'\<rparr>)))"

definition HashAddress ::
  "('t, 'db) env \<Rightarrow> address \<Rightarrow> bool \<Rightarrow> ('t, 'db) TrieDbState
     \<Rightarrow> (hash \<times> error option) \<times> ('t, 'db) TrieDbState" where
  "HashAddress E address save tds =
     (case HashData E address of
        (addrHash, Some err) \<Rightarrow> ((replicate 32 0, Some err), tds)
      | (addrHash, None) \<Rightarrow>
          (case savePreimage E save addrHash address tds of
             (err, tds') \<Rightarrow> ((addrHash, err), tds')))"

definition HashKey ::
  "('t, 'db) env \<Rightarrow> hash \<Rightarrow> bool \<Rightarrow> ('t, 'db) TrieDbState
     \<Rightarrow> (hash \<times> error option) \<times> ('t, 'db) TrieDbState" where
  "HashKey E key save tds =
     (case HashData E key of
        (keyHash, Some err) \<Rightarrow> ((replicate 32 0, Some err), tds)
      | (keyHash, None) \<Rightarrow>
          (case savePreimage E save keyHash key tds of
             (err, tds') \<Rightarrow> ((keyHash, err), tds')))"

section \<open>TrieStateWriter\<close>

text \<open>
  \<^verbatim>\<open>DeleteAccount\<close>: the guard compares \<^verbatim>\<open>err\<close> with itself. Without a current buffer
  the first store dereferences \<^verbatim>\<open>nil\<close>.
\<close>

definition DeleteAccount ::
  "('t, 'db) env \<Rightarrow> address \<Rightarrow> nat option \<Rightarrow> ('t, 'db) TrieDbState
     \<Rightarrow> (error option \<times> ('t, 'db) TrieDbState) outcome" where
  "DeleteAccount E address original tds =
     (case HashAddress E address False tds of
        ((addrHash, err), tds1) \<Rightarrow>
          if err \<noteq> err then Return (err, tds1)
          else (case currentBuffer tds1 of
                  None \<Rightarrow> Panic
                | Some p \<Rightarrow>
                    let b = bufHeap tds1 p;
                        b1 = b\<lparr>accountUpdates := AList.update addrHash None (accountUpdates b)\<rparr>;
                        b2 = b1\<lparr>storageUpdates := AList.delete addrHash (storageUpdates b1)\<rparr>;
                        b3 = b2\<lparr>deleted := List.insert addrHash (deleted b2)\<rparr>
                    in Return (None, tds1\<lparr>bufHeap := (bufHeap tds1)(p := b3)\<rparr>)))"

text \<open>
  \<^verbatim>\<open>bytes.TrimLeft(s, cutset)\<close> of the standard library drops the leading bytes that are
  in the cutset.
\<close>

definition TrimLeft :: "bytes \<Rightarrow> bytes \<Rightarrow> bytes" where
  "TrimLeft s cutset = dropWhile (\<lambda>c. c \<in> set cutset) s"

text \<open>
  \<^verbatim>\<open>WriteAccountStorage\<close>. The inner map \<^verbatim>\<open>m\<close> is a reference: when the address has no
  map yet, the empty one is stored before \<^verbatim>\<open>HashKey\<close> is called, and the final
  \<^verbatim>\<open>m[seckey] = ...\<close> is a store into the map kept under \<^verbatim>\<open>addrHash\<close>.
\<close>

definition WriteAccountStorage ::
  "('t, 'db) env \<Rightarrow> address \<Rightarrow> 64 word \<Rightarrow> hash \<Rightarrow> hash \<Rightarrow> hash \<Rightarrow> ('t, 'db) TrieDbState
     \<Rightarrow> (error option \<times> ('t, 'db) TrieDbState) outcome" where
  "WriteAccountStorage E address incarnation key original val tds =
     (case HashAddress E address False tds of
        ((addrHash, Some err), tds1) \<Rightarrow> Return (Some err, tds1)
      | ((addrHash, None), tds1) \<Rightarrow>
          let v = TrimLeft val [0] in
          (case currentBuffer tds1 of
             None \<Rightarrow> Panic
           | Some p \<Rightarrow>
               let b = bufHeap tds1 p;
                   m = (case map_of (storageUpdates b) addrHash of Some m0 \<Rightarrow> m0 | None \<Rightarrow> []);
                   b1 = (case map_of (storageUpdates b) addrHash of
                           Some m0 \<Rightarrow> b
                         | None \<Rightarrow> b\<lparr>storageUpdates := AList.update addrHash [] (storageUpdates b)\<rparr>);
                   tds2 = tds1\<lparr>bufHeap := (bufHeap tds1)(p := b1)\<rparr>
               in (case HashKey E key False tds2 of
                     ((seckey, Some err), tds3) \<Rightarrow> Return (Some err, tds3)
                   | ((seckey, None), tds3) \<Rightarrow>
                       let m' = (if length v > 0 then AList.update seckey (Some v) m
                                 else AList.update seckey None m);
                           b3 = bufHeap tds3 p
                       in Return (None, tds3\<lparr>bufHeap := (bufHeap tds3)
                            (p := b3\<lparr>storageUpdates := AList.update addrHash m' (storageUpdates b3)\<rparr>)\<rparr>))))"

section \<open>Reading accounts and storage\<close>

text \<open>
  Modelled from the spec: \<^verbatim>\<open>dbutils.GenerateCompositeTrieKey\<close>, which is not among the
  files at hand. The trie key of a storage slot is \<open>hash(addr) \<parallel> hash(slot)\<close>; the code
  builds the same key by hand in \<^verbatim>\<open>buildStorageTouches\<close>.
\<close>

definition GenerateCompositeTrieKey :: "hash \<Rightarrow> hash \<Rightarrow> bytes" where
  "GenerateCompositeTrieKey addrHash seckey = addrHash @ seckey"

text \<open>The block of \<^verbatim>\<open>ReadAccountStorage\<close> under \<^verbatim>\<open>if tds.resolveReads\<close>.\<close>

definition record_storage_read ::
  "hash \<Rightarrow> hash \<Rightarrow> ('t, 'db) TrieDbState \<Rightarrow> ('t, 'db) TrieDbState outcome" where
  "record_storage_read addrHash seckey tds =
     (case currentBuffer tds of
        None \<Rightarrow> Panic
      | Some p \<Rightarrow>
          let b = bufHeap tds p;
              addReadRecord = (case map_of (storageUpdates b) addrHash of
                                 Some mWrite \<Rightarrow> map_of mWrite seckey = None
                               | None \<Rightarrow> True)
          in if addReadRecord then
               let m = (case map_of (storageReads b) addrHash of Some m0 \<Rightarrow> m0 | None \<Rightarrow> [])
               in Return (tds\<lparr>bufHeap := (bufHeap tds)
                    (p := b\<lparr>storageReads := AList.update addrHash (List.insert seckey m) (storageReads b)\<rparr>)\<rparr>)
             else Return tds)"

definition in_deleted :: "('t, 'db) TrieDbState \<Rightarrow> nat option \<Rightarrow> hash \<Rightarrow> bool" where
  "in_deleted tds buf addrHash =
     (case buf of None \<Rightarrow> False | Some p \<Rightarrow> addrHash \<in> set (deleted (bufHeap tds p)))"

definition ReadAccountStorage ::
  "('t, 'db) env \<Rightarrow> address \<Rightarrow> 64 word \<Rightarrow> hash \<Rightarrow> ('t, 'db) TrieDbState
     \<Rightarrow> ((slice \<times> error option) \<times> ('t, 'db) TrieDbState) outcome" where
  "ReadAccountStorage E address incarnation key tds =
     (case HashAddress E address False tds of
        ((addrHash, Some err), tds1) \<Rightarrow> Return ((None, Some err), tds1)
      | ((addrHash, None), tds1) \<Rightarrow>
          if in_deleted tds1 (currentBuffer tds1) addrHash then Return ((None, None), tds1)
          else if in_deleted tds1 (aggregateBuffer tds1) addrHash then Return ((None, None), tds1)
          else
            (case HashKey E key False tds1 of
               ((seckey, Some err), tds2) \<Rightarrow> Return ((None, Some err), tds2)
             | ((seckey, None), tds2) \<Rightarrow>
                 (case (if resolveReads tds2 then record_storage_read addrHash seckey tds2
                        else Return tds2) of
                    Panic \<Rightarrow> Panic
                  | Return tds3 \<Rightarrow>
                      (case t_Get E (tds_t tds3) (GenerateCompositeTrieKey addrHash seckey) of
                         (enc, True) \<Rightarrow> Return ((enc, None), tds3)
                       | (enc, False) \<Rightarrow>
                           (case (if historical tds3 then
                                    db_GetAsOf E (tds_db tds3) StorageBucket StorageHistoryBucket
                                      (GenerateCompositeStorageKey E addrHash incarnation seckey)
                                      (blockNr tds3)
                                  else
                                    db_Get E (tds_db tds3) StorageBucket
                                      (GenerateCompositeStorageKey E addrHash incarnation seckey)) of
                              (enc', Some err) \<Rightarrow> Return ((None, None), tds3)
                            | (enc', None) \<Rightarrow> Return ((enc', None), tds3))))))"

definition readAccountDataByHash ::
  "('t, 'db) env \<Rightarrow> hash \<Rightarrow> ('t, 'db) TrieDbState \<Rightarrow> Account option \<times> error option" where
  "readAccountDataByHash E addrHash tds =
     (case t_GetAccount E (tds_t tds) addrHash of
        (acc, True) \<Rightarrow> (acc, None)
      | (acc, False) \<Rightarrow>
          let enc = (case (if historical tds then
                             db_GetAsOf E (tds_db tds) AccountsBucket AccountsHistoryBucket addrHash
                               (blockNr tds + 1)
                           else db_Get E (tds_db tds) AccountsBucket addrHash) of
                       (enc0, Some err) \<Rightarrow> None
                     | (enc0, None) \<Rightarrow> enc0)
          in if slen enc = 0 then (None, None)
             else (case DecodeForStorage E (case enc of Some bs \<Rightarrow> bs | None \<Rightarrow> []) of
                     (a, Some err) \<Rightarrow> (None, Some err)
                   | (a, None) \<Rightarrow> (Some a, None)))"

text \<open>
  \<^verbatim>\<open>address.Hex()\<close> is \<^verbatim>\<open>0x\<close> followed by the forty hex digits of the address; its
  checksum only chooses the case of the letters, and \<^verbatim>\<open>strings.EqualFold\<close> compares
  without regard to case, so the digits are written in lower case here.
\<close>

definition hexdigit :: "nat \<Rightarrow> char" where
  "hexdigit n = ''0123456789abcdef'' ! (n mod 16)"

definition Hex :: "address \<Rightarrow> string" where
  "Hex address = ''0x'' @ concat (map (\<lambda>b. [hexdigit (unat b div 16), hexdigit (unat b mod 16)]) address)"

definition toLower :: "char \<Rightarrow> char" where
  "toLower c = (let n = (of_char c :: nat) in if 65 \<le> n \<and> n \<le> 90 then char_of (n + 32) else c)"

definition EqualFold :: "string \<Rightarrow> string \<Rightarrow> bool" where
  "EqualFold s u = (map toLower s = map toLower u)"

definition theAccountHex :: string where
  "theAccountHex = ''0x00e6F031D7be9ad7702385A5DC0DF7bD70eB1f91''"

definition theContractHex :: string where
  "theContractHex = ''0x36770fF967bD05248B1c4c899FfB70caa3391b84''"

text \<open>
  \<^verbatim>\<open>ReadAccountData\<close>. The \<^verbatim>\<open>Printf\<close> calls write to standard output only, but the one
  under \<^verbatim>\<open>foundTheAccount\<close> evaluates \<^verbatim>\<open>acc.Balance\<close>, which dereferences \<^verbatim>\<open>acc\<close>.
\<close>

definition ReadAccountData ::
  "('t, 'db) env \<Rightarrow> address \<Rightarrow> ('t, 'db) TrieDbState
     \<Rightarrow> ((Account option \<times> error option) \<times> ('t, 'db) TrieDbState) outcome" where
  "ReadAccountData E address tds =
     (let foundTheAccount = EqualFold (Hex address) theAccountHex;
          foundTheContract = EqualFold (Hex address) theContractHex
      in case HashData E address of
           (addrHash, Some err) \<Rightarrow> Return ((None, Some err), tds)
         | (addrHash, None) \<Rightarrow>
             (case (if resolveReads tds then
                      (case currentBuffer tds of
                         None \<Rightarrow> Panic
                       | Some p \<Rightarrow>
                           let b = bufHeap tds p
                           in if map_of (accountUpdates b) addrHash = None then
                                Return (tds\<lparr>bufHeap := (bufHeap tds)
                                  (p := b\<lparr>accountReads := List.insert addrHash (accountReads b)\<rparr>)\<rparr>)
                              else Return tds)
                    else Return tds) of
                Panic \<Rightarrow> Panic
              | Return tds1 \<Rightarrow>
                  (case readAccountDataByHash E addrHash tds1 of
                     (acc, err) \<Rightarrow>
                       if foundTheAccount \<and> acc = None then Panic
                       else Return ((acc, err), tds1))))"

section \<open>nextIncarnation\<close>

text \<open>\<^verbatim>\<open>copy(dst, src)\<close> overwrites the first \<open>min (len dst) (len src)\<close> bytes of \<open>dst\<close>.\<close>

definition copy_bytes :: "bytes \<Rightarrow> bytes \<Rightarrow> bytes" where
  "copy_bytes dst src = take (length dst) src @ drop (length src) dst"

text \<open>\<^verbatim>\<open>binary.BigEndian.Uint64\<close> on the eight bytes of an array.\<close>

definition be_uint64 :: "bytes \<Rightarrow> 64 word" where
  "be_uint64 bs = foldl (\<lambda>acc b. push_bit 8 acc OR ucast b) 0 bs"

text \<open>
  Modelled from the spec: \<^verbatim>\<open>Walk(bucket, startKey, fixedBits, walker) \<rightarrow> err\<close> of the
  database, which is not among the files at hand. The walker is called on the entries
  of the range in order; the walk ends with the walker's error, or when the walker
  answers \<^verbatim>\<open>false\<close>, or when the range is exhausted. \<open>'s\<close> is what the walker's closure
  captures.
\<close>

fun walk_loop ::
  "(bytes \<times> bytes) list \<Rightarrow> (bytes \<Rightarrow> bytes \<Rightarrow> 's \<Rightarrow> (bool \<times> error option) outcome \<times> 's) \<Rightarrow> 's
     \<Rightarrow> error option outcome \<times> 's" where
  "walk_loop [] walker s = (Return None, s)"
| "walk_loop ((k, v) # es) walker s =
     (case walker k v s of
        (Panic, s') \<Rightarrow> (Panic, s')
      | (Return (goOn, Some err), s') \<Rightarrow> (Return (Some err), s')
      | (Return (False, None), s') \<Rightarrow> (Return None, s')
      | (Return (True, None), s') \<Rightarrow> walk_loop es walker s')"

definition Walk ::
  "error + (bytes \<times> bytes) list \<Rightarrow> (bytes \<Rightarrow> bytes \<Rightarrow> 's \<Rightarrow> (bool \<times> error option) outcome \<times> 's) \<Rightarrow> 's
     \<Rightarrow> error option outcome \<times> 's" where
  "Walk rng walker s =
     (case rng of Inl err \<Rightarrow> (Return (Some err), s) | Inr es \<Rightarrow> walk_loop es walker s)"

text \<open>
  The walker of \<^verbatim>\<open>nextIncarnation\<close>; its closure captures \<^verbatim>\<open>incarnationBytes\<close> and
  \<^verbatim>\<open>found\<close>. The slice \<^verbatim>\<open>k[common.HashLength:]\<close> panics on a key shorter than 32 bytes.
\<close>

definition incarnation_walker ::
  "bytes \<Rightarrow> bytes \<Rightarrow> bytes \<times> bool \<Rightarrow> (bool \<times> error option) outcome \<times> (bytes \<times> bool)" where
  "incarnation_walker k v st =
     (case st of (incarnationBytes, found) \<Rightarrow>
        if length k < 32 then (Panic, st)
        else (Return (False, None), (copy_bytes incarnationBytes (drop 32 k), True)))"

text \<open>
  The range that \<^verbatim>\<open>nextIncarnation\<close> walks: the storage bucket from the start key
  \<open>addrHash \<parallel> 0\<dots>0\<close> with the \<open>8 * 32\<close> bits of the address hash fixed, as of
  \<^verbatim>\<open>tds.blockNr\<close> when the state is historical.
\<close>

definition storage_range ::
  "('t, 'db) env \<Rightarrow> hash \<Rightarrow> ('t, 'db) TrieDbState \<Rightarrow> error + (bytes \<times> bytes) list" where
  "storage_range E addrHash tds =
     (let fixedbits = 8 * 32
      in if historical tds then
           db_WalkAsOf E (tds_db tds) StorageBucket StorageHistoryBucket
             (copy_bytes (replicate (32 + 8 + 32 + 8) 0) addrHash) fixedbits (blockNr tds)
         else
           db_Walk E (tds_db tds) StorageBucket
             (copy_bytes (replicate (32 + 8 + 32) 0) addrHash) fixedbits)"

definition nextIncarnation ::
  "('t, 'db) env \<Rightarrow> hash \<Rightarrow> ('t, 'db) TrieDbState \<Rightarrow> (64 word \<times> error option) outcome" where
  "nextIncarnation E addrHash tds =
     (case Walk (storage_range E addrHash tds) incarnation_walker (replicate 8 0, False) of
        (Panic, st) \<Rightarrow> Panic
      | (Return (Some err), st) \<Rightarrow> Return (0, Some err)
      | (Return None, (incarnationBytes, found)) \<Rightarrow>
          if found then Return ((NOT 0 XOR be_uint64 incarnationBytes) + 1, None)
          else Return (0, None))"

section \<open>updateTrieRoots\<close>

text \<open>
  The loops of \<^verbatim>\<open>updateTrieRoots\<close> change the trie and, through the account pointers of
  the buffers, the account heap; the buffers themselves are only read. An early
  \<^verbatim>\<open>return nil, err\<close> is \<open>(Some err, state)\<close>, a finished loop \<open>(None, state)\<close>.
\<close>

definition andThen ::
  "(error option \<times> 's) outcome \<Rightarrow> ('s \<Rightarrow> (error option \<times> 'r) outcome) \<Rightarrow> ('s \<Rightarrow> 'r)
     \<Rightarrow> (error option \<times> 'r) outcome" where
  "andThen r f onErr =
     (case r of
        Panic \<Rightarrow> Panic
      | Return (Some err, s) \<Rightarrow> Return (Some err, onErr s)
      | Return (None, s) \<Rightarrow> f s)"

text \<open>
  \<^verbatim>\<open>if account, ok := m[addrHash]; ok && account != nil { ... }\<close>: the body \<open>f\<close> is run
  on the account that the entry points to.
\<close>

definition on_account ::
  "(hash \<times> nat option) list \<Rightarrow> hash \<Rightarrow> (Account \<Rightarrow> Account) \<Rightarrow> (nat \<Rightarrow> Account) \<Rightarrow> (nat \<Rightarrow> Account)" where
  "on_account m addrHash f heap =
     (case map_of m addrHash of
        Some (Some p) \<Rightarrow> heap(p := f (heap p))
      | _ \<Rightarrow> heap)"

text \<open>
  The loop over \<^verbatim>\<open>b.created\<close>. \<open>aU\<close> is \<^verbatim>\<open>tds.aggregateBuffer.accountUpdates\<close>, \<open>ac\<close> is
  \<^verbatim>\<open>alreadyCreated\<close>.
\<close>

fun created_loop ::
  "('t, 'db) env \<Rightarrow> Buffer \<Rightarrow> (hash \<times> nat option) list \<Rightarrow> hash list
     \<Rightarrow> hash list \<times> ('t, 'db) TrieDbState
     \<Rightarrow> (error option \<times> hash list \<times> ('t, 'db) TrieDbState) outcome" where
  "created_loop E b aU [] (ac, tds) = Return (None, ac, tds)"
| "created_loop E b aU (addrHash # rest) (ac, tds) =
     (if addrHash \<in> set ac then created_loop E b aU rest (ac, tds)
      else
        (case nextIncarnation E addrHash tds of
           Panic \<Rightarrow> Panic
         | Return (incarnation, Some err) \<Rightarrow> Return (Some err, List.insert addrHash ac, tds)
         | Return (incarnation, None) \<Rightarrow>
             let setup = (\<lambda>account. account\<lparr>Incarnation := incarnation, Root := EmptyRoot E\<rparr>);
                 heap1 = on_account (accountUpdates b) addrHash setup (accHeap tds);
                 heap2 = on_account aU addrHash setup heap1;
                 t' = t_DeleteSubtree E (tds_t tds) addrHash (blockNr tds)
             in created_loop E b aU rest
                  (List.insert addrHash ac, tds\<lparr>tds_t := t', accHeap := heap2\<rparr>)))"

text \<open>The loop over \<^verbatim>\<open>b.accountUpdates\<close>.\<close>

fun accountUpdates_loop ::
  "('t, 'db) env \<Rightarrow> (hash \<times> nat option) list \<Rightarrow> ('t, 'db) TrieDbState \<Rightarrow> ('t, 'db) TrieDbState" where
  "accountUpdates_loop E [] tds = tds"
| "accountUpdates_loop E ((addrHash, account) # rest) tds =
     (case account of
        Some p \<Rightarrow>
          accountUpdates_loop E rest
            (tds\<lparr>tds_t := t_UpdateAccount E (tds_t tds) addrHash (accHeap tds p)\<rparr>)
      | None \<Rightarrow>
          accountUpdates_loop E rest
            (tds\<lparr>tds_t := t_Delete E (tds_t tds) addrHash (blockNr tds)\<rparr>))"

text \<open>The body of the loop over one map \<^verbatim>\<open>m\<close> of storage updates.\<close>

definition storage_item ::
  "('t, 'db) env \<Rightarrow> bool \<Rightarrow> hash \<Rightarrow> hash \<times> slice \<Rightarrow> ('t, 'db) TrieDbState \<Rightarrow> ('t, 'db) TrieDbState" where
  "storage_item E forward addrHash kv tds =
     (case kv of (keyHash, v) \<Rightarrow>
        let cKey = GenerateCompositeTrieKey addrHash keyHash
        in if slen v > 0 then
             (if forward then
                tds\<lparr>tds_t := t_Update E (tds_t tds) cKey (case v of Some bs \<Rightarrow> bs | None \<Rightarrow> []) (blockNr tds)\<rparr>
              else if snd (t_Get E (tds_t tds) cKey) then
                tds\<lparr>tds_t := t_Update E (tds_t tds) cKey (case v of Some bs \<Rightarrow> bs | None \<Rightarrow> []) (blockNr tds)\<rparr>
              else tds)
           else
             (if forward then
                tds\<lparr>tds_t := t_Delete E (tds_t tds) cKey (blockNr tds)\<rparr>
              else if snd (t_Get E (tds_t tds) cKey) then
                tds\<lparr>tds_t := t_Delete E (tds_t tds) cKey (blockNr tds)\<rparr>
              else tds))"

fun storage_items ::
  "('t, 'db) env \<Rightarrow> bool \<Rightarrow> hash \<Rightarrow> (hash \<times> slice) list \<Rightarrow> ('t, 'db) TrieDbState \<Rightarrow> ('t, 'db) TrieDbState" where
  "storage_items E forward addrHash [] tds = tds"
| "storage_items E forward addrHash (kv # m) tds =
     storage_items E forward addrHash m (storage_item E forward addrHash kv tds)"

text \<open>
  What follows the storage writes of one address. Going forward, the storage root is
  recomputed and stored in the pending account records; rewinding, it is compared with
  them.
\<close>

definition deep_root :: "('t, 'db) env \<Rightarrow> 't \<Rightarrow> hash \<Rightarrow> hash" where
  "deep_root E t addrHash =
     (case t_DeepHash E t addrHash of (ok, root) \<Rightarrow> if ok then root else EmptyRoot E)"

definition check_root ::
  "('t, 'db) env \<Rightarrow> (hash \<times> nat option) list \<Rightarrow> hash \<Rightarrow> ('t, 'db) TrieDbState \<Rightarrow> error option" where
  "check_root E m addrHash tds =
     (case map_of m addrHash of
        Some (Some p) \<Rightarrow>
          let h = deep_root E (tds_t tds) addrHash
          in if Root (accHeap tds p) \<noteq> h
             then Some (MismatchedStorageRoot addrHash (Root (accHeap tds p)) h)
             else None
      | _ \<Rightarrow> None)"

definition storage_root ::
  "('t, 'db) env \<Rightarrow> bool \<Rightarrow> Buffer \<Rightarrow> (hash \<times> nat option) list \<Rightarrow> hash \<Rightarrow> ('t, 'db) TrieDbState
     \<Rightarrow> error option \<times> ('t, 'db) TrieDbState" where
  "storage_root E forward b aU addrHash tds =
     (if forward then
        let setRoot = (\<lambda>account. account\<lparr>Root := deep_root E (tds_t tds) addrHash\<rparr>);
            heap1 = on_account (accountUpdates b) addrHash setRoot (accHeap tds);
            heap2 = on_account aU addrHash setRoot heap1
        in (None, tds\<lparr>accHeap := heap2\<rparr>)
      else
        (case check_root E (accountUpdates b) addrHash tds of
           Some err \<Rightarrow> (Some err, tds)
         | None \<Rightarrow>
             (case check_root E aU addrHash tds of
                Some err \<Rightarrow> (Some err, tds)
              | None \<Rightarrow> (None, tds))))"

text \<open>The loop over \<^verbatim>\<open>b.storageUpdates\<close>.\<close>

fun storageUpdates_loop ::
  "('t, 'db) env \<Rightarrow> bool \<Rightarrow> Buffer \<Rightarrow> (hash \<times> nat option) list \<Rightarrow> (hash \<times> (hash \<times> slice) list) list
     \<Rightarrow> ('t, 'db) TrieDbState \<Rightarrow> error option \<times> ('t, 'db) TrieDbState" where
  "storageUpdates_loop E forward b aU [] tds = (None, tds)"
| "storageUpdates_loop E forward b aU ((addrHash, m) # rest) tds =
     (case storage_root E forward b aU addrHash (storage_items E forward addrHash m tds) of
        (Some err, tds') \<Rightarrow> (Some err, tds')
      | (None, tds') \<Rightarrow> storageUpdates_loop E forward b aU rest tds')"

text \<open>The loop over \<^verbatim>\<open>b.deleted\<close>.\<close>

fun deleted_loop ::
  "('t, 'db) env \<Rightarrow> Buffer \<Rightarrow> (hash \<times> nat option) list \<Rightarrow> hash list \<Rightarrow> ('t, 'db) TrieDbState
     \<Rightarrow> ('t, 'db) TrieDbState" where
  "deleted_loop E b aU [] tds = tds"
| "deleted_loop E b aU (addrHash # rest) tds =
     (if addrHash \<in> set (created b) then deleted_loop E b aU rest tds
      else
        let clear = (\<lambda>account. account\<lparr>Root := EmptyRoot E\<rparr>);
            heap1 = on_account (accountUpdates b) addrHash clear (accHeap tds);
            heap2 = on_account aU addrHash clear heap1;
            t' = t_DeleteSubtree E (tds_t tds) addrHash (blockNr tds)
        in deleted_loop E b aU rest (tds\<lparr>tds_t := t', accHeap := heap2\<rparr>))"

text \<open>
  The body of the loop over \<^verbatim>\<open>tds.buffers\<close>, and the loop. The state of the loop is
  \<^verbatim>\<open>alreadyCreated\<close>, the roots computed so far, and the trie and account heap; \<^verbatim>\<open>roots\<close>
  is filled from the left, one entry per buffer.
\<close>

definition buffer_step ::
  "('t, 'db) env \<Rightarrow> bool \<Rightarrow> (hash \<times> nat option) list \<Rightarrow> Buffer
     \<Rightarrow> hash list \<times> hash list \<times> ('t, 'db) TrieDbState
     \<Rightarrow> (error option \<times> hash list \<times> hash list \<times> ('t, 'db) TrieDbState) outcome" where
  "buffer_step E forward aU b st =
     (case st of (ac, roots, tds) \<Rightarrow>
        andThen (created_loop E b aU (created b) (ac, tds))
          (\<lambda>(ac1, tds1).
             case storageUpdates_loop E forward b aU (storageUpdates b)
                    (accountUpdates_loop E (accountUpdates b) tds1) of
               (Some err, tds2) \<Rightarrow> Return (Some err, ac1, roots, tds2)
             | (None, tds2) \<Rightarrow>
                 let tds3 = deleted_loop E b aU (deleted b) tds2
                 in Return (None, ac1, roots @ [t_Hash E (tds_t tds3)], tds3))
          (\<lambda>(ac1, tds1). (ac1, roots, tds1)))"

fun buffers_loop ::
  "('t, 'db) env \<Rightarrow> bool \<Rightarrow> (hash \<times> nat option) list \<Rightarrow> Buffer list
     \<Rightarrow> hash list \<times> hash list \<times> ('t, 'db) TrieDbState
     \<Rightarrow> (error option \<times> hash list \<times> hash list \<times> ('t, 'db) TrieDbState) outcome" where
  "buffers_loop E forward aU [] st = Return (None, st)"
| "buffers_loop E forward aU (b # bs) st =
     andThen (buffer_step E forward aU b st) (buffers_loop E forward aU bs) (\<lambda>st'. st')"

text \<open>
  \<^verbatim>\<open>updateTrieRoots\<close> itself. Its first line reads a field of \<^verbatim>\<open>tds.aggregateBuffer\<close>
  and panics when there is none.
\<close>

definition updateTrieRoots ::
  "('t, 'db) env \<Rightarrow> bool \<Rightarrow> ('t, 'db) TrieDbState
     \<Rightarrow> ((hash list option \<times> error option) \<times> ('t, 'db) TrieDbState) outcome" where
  "updateTrieRoots E forward tds =
     (case aggregateBuffer tds of
        None \<Rightarrow> Panic
      | Some q \<Rightarrow>
          (case buffers_loop E forward (accountUpdates (bufHeap tds q))
                  (map (bufHeap tds) (buffers tds)) ([], [], tds) of
             Panic \<Rightarrow> Panic
           | Return (Some err, ac, roots, tds') \<Rightarrow> Return ((None, Some err), tds')
           | Return (None, ac, roots, tds') \<Rightarrow> Return ((Some roots, None), tds')))"

section \<open>TrieResolver\<close>

text \<open>
  \<^verbatim>\<open>ResolveRequest\<close> is declared outside the files at hand; the fields are the ones the
  resolver reads and writes. \<open>req_t\<close> stands for the pointer \<^verbatim>\<open>t\<close> to the parent trie: it
  names one of the tries of the state below. Positions are Go \<^verbatim>\<open>int\<close>s that the code
  only uses as slice bounds; they are natural numbers here.
\<close>

record ResolveRequest =
  req_t :: nat
  contract :: bytes
  resolveHex :: bytes
  resolvePos :: nat
  extResolvePos :: nat
  resolveHash :: bytes
  RequiresRLP :: bool
  NodeRLP :: bytes

text \<open>
  Modelled from the spec: \<^verbatim>\<open>ResolveSet\<close>, which is not among the files at hand. It is
  seeded with a set of nibble paths and a minimum retention length; \<^verbatim>\<open>AddHex\<close> adds a
  path.
\<close>

record ResolveSet =
  minLength :: nat
  hexes :: "bytes list"

definition NewResolveSet :: "nat \<Rightarrow> ResolveSet" where
  "NewResolveSet n = \<lparr> minLength = n, hexes = [] \<rparr>"

definition AddHex :: "ResolveSet \<Rightarrow> bytes \<Rightarrow> ResolveSet" where
  "AddHex rs hex = rs\<lparr>hexes := hexes rs @ [hex]\<rparr>"

text \<open>
  The hash builder (\<^verbatim>\<open>HashBuilder2\<close>, \<^verbatim>\<open>step2\<close>), the hasher, the account codec,
  \<^verbatim>\<open>decodeNibbles\<close>, the parent trie's \<^verbatim>\<open>hook\<close> and \<^verbatim>\<open>touchAll\<close>, and the database's
  multi-range walks are not among the files at hand either. They are parameters over
  arbitrary types of hash-builder states \<open>'hb\<close>, trie nodes \<open>'node\<close>, tries \<open>'t\<close> and
  databases \<open>'db\<close>. \<open>step2\<close> is handed the resolve set whose \<^verbatim>\<open>HashOnly\<close> the code
  passes, and returns the new prefix, the new groups and the hash builder it has
  worked on. The walks give the entries \<open>(keyIdx, k, v)\<close> in the order in which the
  walker receives them, or the error of the database.
\<close>

record ('hb, 'node, 't, 'db) renv =
  step2 :: "ResolveSet \<Rightarrow> bool \<Rightarrow> bytes \<Rightarrow> bytes \<Rightarrow> bytes \<Rightarrow> 'hb \<Rightarrow> bytes \<Rightarrow> 32 word list
              \<Rightarrow> bytes \<times> 32 word list \<times> 'hb"
  hb_hasRoot :: "'hb \<Rightarrow> bool"
  hb_root :: "'hb \<Rightarrow> 'node"
  hb_rootHash :: "'hb \<Rightarrow> bytes"
  hb_Reset :: "'hb \<Rightarrow> 'hb"
  hb_setKeyValue :: "'hb \<Rightarrow> nat \<Rightarrow> bytes \<Rightarrow> bytes \<Rightarrow> 'hb"
  hashChildren :: "'node \<Rightarrow> nat \<Rightarrow> bytes"
  a_Decode :: "Account \<Rightarrow> bytes \<Rightarrow> Account \<times> error option"
  a_EncodeForHashing :: "Account \<Rightarrow> bytes"
  decodeNibbles :: "bytes \<Rightarrow> bytes \<Rightarrow> bytes outcome"
  t_hook :: "'t \<Rightarrow> bytes \<Rightarrow> 'node \<Rightarrow> 't"
  t_touchAll :: "'t \<Rightarrow> 'node \<Rightarrow> bytes \<Rightarrow> bool \<Rightarrow> 't"
  db_MultiWalk :: "'db \<Rightarrow> bucket \<Rightarrow> bytes list \<Rightarrow> nat list \<Rightarrow> error + (nat \<times> bytes \<times> bytes) list"
  db_MultiWalkAsOf :: "'db \<Rightarrow> bucket \<Rightarrow> bucket \<Rightarrow> bytes list \<Rightarrow> nat list \<Rightarrow> 64 word
                         \<Rightarrow> error + (nat \<times> bytes \<times> bytes) list"

text \<open>
  The resolver. \<^verbatim>\<open>requests\<close> holds pointers, and \<^verbatim>\<open>currentReq\<close> and \<^verbatim>\<open>currentRs\<close> point
  into \<^verbatim>\<open>requests\<close> and \<^verbatim>\<open>rss\<close>: they are positions in these lists, \<open>None\<close> for \<^verbatim>\<open>nil\<close>.
  \<open>parentTries\<close> are the tries that the requests point to (\<open>req_t\<close>).
\<close>

record ('hb, 't) TrieResolver =
  accounts :: bool
  topLevels :: nat
  requests :: "ResolveRequest list"
  reqIndices :: "nat list"
  keyIdx :: nat
  currentReq :: "nat option"
  currentRs :: "nat option"
  tr_historical :: bool
  tr_blockNr :: "64 word"
  tr_hb :: 'hb
  rss :: "ResolveSet list"
  tr_prec :: bytes
  tr_curr :: bytes
  tr_succ :: bytes
  groups :: "32 word list"
  tr_prefix :: bytes
  tr_a :: Account
  parentTries :: "nat \<Rightarrow> 't"

text \<open>The function \<^verbatim>\<open>min\<close> of the resolver's file.\<close>

definition min' :: "nat \<Rightarrow> nat \<Rightarrow> nat" where
  "min' a b = (if a < b then a else b)"

text \<open>
  \<^verbatim>\<open>bytes.Compare\<close> of the standard library: the lexicographic order of byte strings,
  bytes compared as unsigned numbers.
\<close>

definition bytes_Compare :: "bytes \<Rightarrow> bytes \<Rightarrow> int" where
  "bytes_Compare x y = (if x = y then 0 else if x < y then - 1 else 1)"

definition Less :: "ResolveRequest \<Rightarrow> ResolveRequest \<Rightarrow> bool" where
  "Less ci cj =
     (let m = min' (resolvePos ci) (resolvePos cj);
          c = bytes_Compare (contract ci) (contract cj)
      in if c \<noteq> 0 then c < 0
         else
           let c' = bytes_Compare (take m (resolveHex ci)) (take m (resolveHex cj))
           in if c' \<noteq> 0 then c' < 0
              else resolvePos ci < resolvePos cj)"

text \<open>
  \<^verbatim>\<open>sort.Stable\<close> of the standard library, on a list and a comparison: the elements in
  the order of the comparison, those that it does not tell apart in their old order.
  Each element is inserted, in turn, before the first one that it is less than.
\<close>

fun insert_stable :: "('a \<Rightarrow> 'a \<Rightarrow> bool) \<Rightarrow> 'a \<Rightarrow> 'a list \<Rightarrow> 'a list" where
  "insert_stable lt x [] = [x]"
| "insert_stable lt x (y # ys) =
     (if lt x y then x # y # ys else y # insert_stable lt x ys)"

definition sort_Stable :: "('a \<Rightarrow> 'a \<Rightarrow> bool) \<Rightarrow> 'a list \<Rightarrow> 'a list" where
  "sort_Stable lt xs = foldl (\<lambda>acc x. insert_stable lt x acc) [] xs"

text \<open>
  The state of the loop of \<^verbatim>\<open>PrepareResolveParams\<close>: the two results, \<^verbatim>\<open>tr.reqIndices\<close>,
  \<^verbatim>\<open>tr.rss\<close>, \<^verbatim>\<open>prevReq\<close>, and the requests passed so far (the kept ones with their
  \<^verbatim>\<open>extResolvePos\<close> set).
\<close>

record prepare_state =
  startkeys :: "bytes list"
  fixedbits :: "nat list"
  ps_reqIndices :: "nat list"
  ps_rss :: "ResolveSet list"
  prevReq :: "ResolveRequest option"
  ps_done :: "ResolveRequest list"

definition same_range :: "ResolveRequest \<Rightarrow> ResolveRequest \<Rightarrow> bool" where
  "same_range req prev =
     (contract req = contract prev \<and>
      take (resolvePos req) (resolveHex req) = take (resolvePos prev) (resolveHex prev))"

definition prepare_step ::
  "('hb, 'node, 't, 'db) renv \<Rightarrow> nat \<Rightarrow> nat \<Rightarrow> ResolveRequest \<Rightarrow> prepare_state
     \<Rightarrow> prepare_state outcome" where
  "prepare_step R topLvl i req st =
     (if prevReq st = None \<or> \<not> same_range req (case prevReq st of Some prev \<Rightarrow> prev | None \<Rightarrow> req) then
        let pLen = length (contract req)
        in case decodeNibbles R (take (resolvePos req) (resolveHex req)) (replicate 32 0) of
             Panic \<Rightarrow> Panic
           | Return packed \<Rightarrow>
               let key = contract req @ packed;
                   req' = req\<lparr>extResolvePos := resolvePos req + 2 * pLen\<rparr>;
                   minLen = (if resolvePos req \<ge> topLvl then 0 else topLvl - resolvePos req);
                   rs = NewResolveSet minLen
               in Return (st\<lparr>startkeys := startkeys st @ [key],
                             fixedbits := fixedbits st @ [4 * extResolvePos req'],
                             ps_reqIndices := ps_reqIndices st @ [i],
                             ps_rss := ps_rss st @ [AddHex rs (drop (resolvePos req) (resolveHex req))],
                             prevReq := Some req',
                             ps_done := ps_done st @ [req']\<rparr>)
      else if ps_rss st = [] then Panic
      else Return (st\<lparr>ps_rss := butlast (ps_rss st)
                             @ [AddHex (last (ps_rss st)) (drop (resolvePos req) (resolveHex req))],
                        ps_done := ps_done st @ [req]\<rparr>))"

fun prepare_loop ::
  "('hb, 'node, 't, 'db) renv \<Rightarrow> nat \<Rightarrow> nat \<Rightarrow> ResolveRequest list \<Rightarrow> prepare_state
     \<Rightarrow> prepare_state outcome" where
  "prepare_loop R topLvl i [] st = Return st"
| "prepare_loop R topLvl i (req # reqs) st =
     (case prepare_step R topLvl i req st of
        Panic \<Rightarrow> Panic
      | Return st' \<Rightarrow> prepare_loop R topLvl (Suc i) reqs st')"

text \<open>
  \<^verbatim>\<open>PrepareResolveParams\<close>. Every request passes through
  \<^verbatim>\<open>req.resolveHex[req.resolvePos:]\<close>, so a request whose \<^verbatim>\<open>resolvePos\<close> is beyond its
  \<^verbatim>\<open>resolveHex\<close> makes the call panic, in \<^verbatim>\<open>Less\<close> or in the loop; with no such request
  no slice of the function is out of range. \<^verbatim>\<open>tr.reqIndices\<close> is appended to and not
  reset.
\<close>

definition PrepareResolveParams ::
  "('hb, 'node, 't, 'db) renv \<Rightarrow> ('hb, 't) TrieResolver
     \<Rightarrow> ((bytes list \<times> nat list) \<times> ('hb, 't) TrieResolver) outcome" where
  "PrepareResolveParams R tr =
     (if requests tr = [] then Return (([], []), tr\<lparr>rss := []\<rparr>)
      else if \<exists>req \<in> set (requests tr). resolvePos req > length (resolveHex req) then Panic
      else
        case prepare_loop R (topLevels tr) 0 (sort_Stable Less (requests tr))
               \<lparr> startkeys = [], fixedbits = [], ps_reqIndices = reqIndices tr, ps_rss = [],
                 prevReq = None, ps_done = [] \<rparr> of
          Panic \<Rightarrow> Panic
        | Return st \<Rightarrow>
            (case ps_reqIndices st of
               [] \<Rightarrow> Panic
             | i0 # more_indices \<Rightarrow>
                 if i0 \<ge> length (ps_done st) \<or> ps_rss st = [] then Panic
                 else Return ((startkeys st, fixedbits st),
                        tr\<lparr>requests := ps_done st, reqIndices := ps_reqIndices st,
                           rss := ps_rss st, currentReq := Some i0, currentRs := Some 0\<rparr>)))"

text \<open>
  The block that the walker runs three times: the keys move up
  (\<^verbatim>\<open>prec \<leftarrow> curr \<leftarrow> succ \<leftarrow> newSucc\<close>) and, when there is a current key, \<^verbatim>\<open>step2\<close> works on
  the hash builder. On a change of range and at the end of the walk \<open>newSucc\<close> is empty.
  Calling \<^verbatim>\<open>HashOnly\<close> of a \<^verbatim>\<open>nil\<close> resolve set panics.
\<close>

definition advance ::
  "('hb, 'node, 't, 'db) renv \<Rightarrow> bytes \<Rightarrow> ('hb, 't) TrieResolver \<Rightarrow> ('hb, 't) TrieResolver outcome" where
  "advance R newSucc tr =
     (let tr1 = tr\<lparr>tr_prec := tr_curr tr, tr_curr := tr_succ tr, tr_succ := newSucc\<rparr>
      in if length (tr_curr tr1) > 0 then
           (case currentRs tr1 of
              None \<Rightarrow> Panic
            | Some j \<Rightarrow>
                if j \<ge> length (rss tr1) then Panic
                else
                  (case step2 R (rss tr1 ! j) False (tr_prec tr1) (tr_curr tr1) (tr_succ tr1)
                          (tr_hb tr1) (tr_prefix tr1) (groups tr1) of
                     (prefix', groups', hb') \<Rightarrow>
                       Return (tr1\<lparr>tr_prefix := prefix', groups := groups', tr_hb := hb'\<rparr>)))
         else Return tr1)"

text \<open>
  The block under \<^verbatim>\<open>if tr.hb.hasRoot()\<close>, which closes the range of the current
  request: in \<^verbatim>\<open>Walker\<close> (\<open>final = False\<close>) and at the end of \<^verbatim>\<open>ResolveWithDb\<close>
  (\<open>final = True\<close>, where \<^verbatim>\<open>touchAll\<close> precedes \<^verbatim>\<open>hook\<close>).
\<close>

definition finish_range ::
  "('hb, 'node, 't, 'db) renv \<Rightarrow> bool \<Rightarrow> ('hb, 't) TrieResolver
     \<Rightarrow> (error option \<times> ('hb, 't) TrieResolver) outcome" where
  "finish_range R final tr =
     (if hb_hasRoot R (tr_hb tr) then
        (case currentReq tr of
           None \<Rightarrow> Panic
         | Some i \<Rightarrow>
             if i \<ge> length (requests tr) then Panic
             else
               let req = requests tr ! i;
                   hbRoot = hb_root R (tr_hb tr);
                   hbHash = hb_rootHash R (tr_hb tr)
               in if length (resolveHash req) > 0 \<and> resolveHash req \<noteq> hbHash then
                    Return (Some (MismatchingHash (resolveHash req) hbHash), tr)
                  else if resolvePos req > length (resolveHex req) then Panic
                  else
                    let tr1 = (if RequiresRLP req then
                                 tr\<lparr>requests := (requests tr)[i := req\<lparr>NodeRLP := hashChildren R hbRoot 0\<rparr>]\<rparr>
                               else tr);
                        at = take (resolvePos req) (resolveHex req);
                        t0 = parentTries tr (req_t req);
                        t1 = (if final then t_touchAll R t0 hbRoot at False else t0)
                    in Return (None, tr1\<lparr>parentTries := (parentTries tr)(req_t req := t_hook R t1 at hbRoot)\<rparr>))
      else Return (None, tr))"

text \<open>The nibbles of the key \<open>k\<close> from position \<open>skip\<close> on: the loop over the bytes of \<open>k\<close>.\<close>

fun key_nibbles :: "nat \<Rightarrow> nat \<Rightarrow> bytes \<Rightarrow> bytes" where
  "key_nibbles skip i [] = []"
| "key_nibbles skip i (b # k) =
     (if i \<ge> skip then [b div 16] else []) @ (if i + 1 \<ge> skip then [b mod 16] else [])
       @ key_nibbles skip (i + 2) k"

text \<open>The first half of \<^verbatim>\<open>Walker\<close>, run when \<^verbatim>\<open>keyIdx\<close> changes.\<close>

definition change_range ::
  "('hb, 'node, 't, 'db) renv \<Rightarrow> nat \<Rightarrow> ('hb, 't) TrieResolver
     \<Rightarrow> (error option \<times> ('hb, 't) TrieResolver) outcome" where
  "change_range R newIdx tr =
     (case advance R [] tr of
        Panic \<Rightarrow> Panic
      | Return tr1 \<Rightarrow>
          (case finish_range R False tr1 of
             Panic \<Rightarrow> Panic
           | Return (Some err, tr2) \<Rightarrow> Return (Some err, tr2)
           | Return (None, tr2) \<Rightarrow>
               if newIdx \<ge> length (reqIndices tr2) then Panic
               else if reqIndices tr2 ! newIdx \<ge> length (requests tr2) then Panic
               else if newIdx \<ge> length (rss tr2) then Panic
               else Return (None,
                      tr2\<lparr>tr_hb := hb_Reset R (tr_hb tr2), groups := [], tr_prefix := [],
                          keyIdx := newIdx, currentReq := Some (reqIndices tr2 ! newIdx),
                          currentRs := Some newIdx, tr_curr := [], tr_prec := []\<rparr>)))"

text \<open>The second half of \<^verbatim>\<open>Walker\<close>, run when the value is not empty.\<close>

definition take_entry ::
  "('hb, 'node, 't, 'db) renv \<Rightarrow> bytes \<Rightarrow> bytes \<Rightarrow> ('hb, 't) TrieResolver
     \<Rightarrow> ((bool \<times> error option) \<times> ('hb, 't) TrieResolver) outcome" where
  "take_entry R k v tr =
     (case currentReq tr of
        None \<Rightarrow> Panic
      | Some i \<Rightarrow>
          if i \<ge> length (requests tr) then Panic
          else
            let skip = extResolvePos (requests tr ! i)
            in case advance R (key_nibbles skip 0 k @ [16]) tr of
                 Panic \<Rightarrow> Panic
               | Return tr1 \<Rightarrow>
                   if accounts tr1 then
                     (case a_Decode R (tr_a tr1) v of
                        (a', Some err) \<Rightarrow> Return ((False, Some err), tr1\<lparr>tr_a := a'\<rparr>)
                      | (a', None) \<Rightarrow>
                          Return ((True, None),
                            tr1\<lparr>tr_a := a',
                                tr_hb := hb_setKeyValue R (tr_hb tr1) skip k (a_EncodeForHashing R a')\<rparr>))
                   else
                     let vv = (if length v > 1 \<or> hd v \<ge> 128 then of_nat (128 + length v) # v
                               else [hd v])
                     in Return ((True, None),
                          tr1\<lparr>tr_hb := hb_setKeyValue R (tr_hb tr1) skip k vv\<rparr>))"

definition Walker ::
  "('hb, 'node, 't, 'db) renv \<Rightarrow> nat \<Rightarrow> bytes \<Rightarrow> bytes \<Rightarrow> ('hb, 't) TrieResolver
     \<Rightarrow> ((bool \<times> error option) \<times> ('hb, 't) TrieResolver) outcome" where
  "Walker R newIdx k v tr =
     (case (if newIdx \<noteq> keyIdx tr then change_range R newIdx tr else Return (None, tr)) of
        Panic \<Rightarrow> Panic
      | Return (Some err, tr1) \<Rightarrow> Return ((False, Some err), tr1)
      | Return (None, tr1) \<Rightarrow>
          if length v > 0 then take_entry R k v tr1
          else Return ((True, None), tr1))"

text \<open>
  Modelled from the spec: \<^verbatim>\<open>MultiWalk(bucket, startKeys[], fixedBits[], walker) \<rightarrow> err\<close>
  of the database, which is not among the files at hand: it emits the entries of each
  range in ascending \<open>(rangeIdx, key)\<close> order to the walker, and ends with the walker's
  error, when the walker answers \<^verbatim>\<open>false\<close>, or when the ranges are exhausted.
\<close>

fun multiwalk_loop ::
  "(nat \<times> bytes \<times> bytes) list
     \<Rightarrow> (nat \<Rightarrow> bytes \<Rightarrow> bytes \<Rightarrow> 's \<Rightarrow> ((bool \<times> error option) \<times> 's) outcome) \<Rightarrow> 's
     \<Rightarrow> (error option \<times> 's) outcome" where
  "multiwalk_loop [] walker s = Return (None, s)"
| "multiwalk_loop ((i, k, v) # es) walker s =
     (case walker i k v s of
        Panic \<Rightarrow> Panic
      | Return ((goOn, Some err), s') \<Rightarrow> Return (Some err, s')
      | Return ((False, None), s') \<Rightarrow> Return (None, s')
      | Return ((True, None), s') \<Rightarrow> multiwalk_loop es walker s')"

definition MultiWalk ::
  "error + (nat \<times> bytes \<times> bytes) list
     \<Rightarrow> (nat \<Rightarrow> bytes \<Rightarrow> bytes \<Rightarrow> 's \<Rightarrow> ((bool \<times> error option) \<times> 's) outcome) \<Rightarrow> 's
     \<Rightarrow> (error option \<times> 's) outcome" where
  "MultiWalk ranges walker s =
     (case ranges of Inl err \<Rightarrow> Return (Some err, s) | Inr es \<Rightarrow> multiwalk_loop es walker s)"

text \<open>
  The walk that \<^verbatim>\<open>ResolveWithDb\<close> asks the database for: over the accounts or the
  storage bucket, as of \<^verbatim>\<open>blockNr + 1\<close> when the resolver is historical.
\<close>

definition resolver_ranges ::
  "('hb, 'node, 't, 'db) renv \<Rightarrow> 'db \<Rightarrow> 64 word \<Rightarrow> bytes list \<Rightarrow> nat list \<Rightarrow> ('hb, 't) TrieResolver
     \<Rightarrow> error + (nat \<times> bytes \<times> bytes) list" where
  "resolver_ranges R d blockNo keys bits tr =
     (if accounts tr then
        (if tr_historical tr then
           db_MultiWalkAsOf R d AccountsBucket AccountsHistoryBucket keys bits (blockNo + 1)
         else db_MultiWalk R d AccountsBucket keys bits)
      else
        (if tr_historical tr then
           db_MultiWalkAsOf R d StorageBucket StorageHistoryBucket keys bits (blockNo + 1)
         else db_MultiWalk R d StorageBucket keys bits))"

text \<open>
  \<^verbatim>\<open>ResolveWithDb\<close>; \<open>db = None\<close> is the \<^verbatim>\<open>nil\<close> database. After the walk, whatever its
  error, the range of the current request is closed; the error of the walk is returned
  when closing reports none.
\<close>

definition ResolveWithDb ::
  "('hb, 'node, 't, 'db) renv \<Rightarrow> 'db option \<Rightarrow> 64 word \<Rightarrow> ('hb, 't) TrieResolver
     \<Rightarrow> (error option \<times> ('hb, 't) TrieResolver) outcome" where
  "ResolveWithDb R db blockNo tr =
     (case PrepareResolveParams R tr of
        Panic \<Rightarrow> Panic
      | Return ((keys, bits), tr1) \<Rightarrow>
          (case db of
             None \<Rightarrow> Return (Some UnexpectedResolution, tr1)
           | Some d \<Rightarrow>
               (case MultiWalk (resolver_ranges R d blockNo keys bits tr1) (Walker R) tr1 of
                  Panic \<Rightarrow> Panic
                | Return (err, tr2) \<Rightarrow>
                    (case advance R [] tr2 of
                       Panic \<Rightarrow> Panic
                     | Return tr3 \<Rightarrow>
                         (case finish_range R True tr3 of
                            Panic \<Rightarrow> Panic
                          | Return (Some err', tr4) \<Rightarrow> Return (Some err', tr4)
                          | Return (None, tr4) \<Rightarrow> Return (err, tr4))))))"

text \<open>
  The range that a request asks for is given by its contract and the first
  \<^verbatim>\<open>resolvePos\<close> nibbles of \<^verbatim>\<open>resolveHex\<close>; what it adds to a resolve set is the rest of
  \<^verbatim>\<open>resolveHex\<close>. \<open>kept_inv\<close> holds of the states of the loop of \<^verbatim>\<open>PrepareResolveParams\<close>:
  when there is a previous kept request, the last resolve set exists and holds what that
  request added.
\<close>

definition range_key :: "ResolveRequest \<Rightarrow> bytes \<times> bytes" where
  "range_key req = (contract req, take (resolvePos req) (resolveHex req))"

definition suffix_of :: "ResolveRequest \<Rightarrow> bytes" where
  "suffix_of req = drop (resolvePos req) (resolveHex req)"

definition wf_req :: "ResolveRequest \<Rightarrow> bool" where
  "wf_req req = (resolvePos req \<le> length (resolveHex req))"

definition kept_inv :: "prepare_state \<Rightarrow> bool" where
  "kept_inv st =
     (case prevReq st of
        None \<Rightarrow> True
      | Some p \<Rightarrow> ps_rss st \<noteq> [] \<and> suffix_of p \<in> set (hexes (last (ps_rss st))))"

section \<open>Recording the calls made on the trie\<close>

text \<open>
  To speak about the calls that a run makes on the trie, the parameters are wrapped: the
  wrapped trie is the trie together with the list of the mutating calls made so far,
  each with the trie it was made on. Reads go to the trie; nothing else changes.
  \<open>untraced\<close> forgets the list again.
\<close>

datatype 't call =
    CallUpdate 't bytes bytes
  | CallDelete 't bytes
  | CallDeleteSubtree 't bytes
  | CallUpdateAccount 't bytes Account

definition traced :: "('t, 'db) env \<Rightarrow> ('t \<times> 't call list, 'db) env" where
  "traced E =
     \<lparr> HashData = HashData E,
       EmptyRoot = EmptyRoot E,
       DecodeForStorage = DecodeForStorage E,
       GenerateCompositeStorageKey = GenerateCompositeStorageKey E,
       t_Get = (\<lambda>tlog. t_Get E (fst tlog)),
       t_GetAccount = (\<lambda>tlog. t_GetAccount E (fst tlog)),
       t_Update = (\<lambda>tlog k v n.
          (t_Update E (fst tlog) k v n, snd tlog @ [CallUpdate (fst tlog) k v])),
       t_Delete = (\<lambda>tlog k n.
          (t_Delete E (fst tlog) k n, snd tlog @ [CallDelete (fst tlog) k])),
       t_DeleteSubtree = (\<lambda>tlog k n.
          (t_DeleteSubtree E (fst tlog) k n, snd tlog @ [CallDeleteSubtree (fst tlog) k])),
       t_UpdateAccount = (\<lambda>tlog k a.
          (t_UpdateAccount E (fst tlog) k a, snd tlog @ [CallUpdateAccount (fst tlog) k a])),
       t_DeepHash = (\<lambda>tlog. t_DeepHash E (fst tlog)),
       t_Hash = (\<lambda>tlog. t_Hash E (fst tlog)),
       db_Get = db_Get E,
       db_GetAsOf = db_GetAsOf E,
       db_Put = db_Put E,
       db_Walk = db_Walk E,
       db_WalkAsOf = db_WalkAsOf E \<rparr>"

definition untraced :: "('t \<times> 'c, 'db) TrieDbState \<Rightarrow> ('t, 'db) TrieDbState" where
  "untraced tds =
     \<lparr> tds_t = fst (tds_t tds), tds_db = tds_db tds, blockNr = blockNr tds, buffers = buffers tds,
       aggregateBuffer = aggregateBuffer tds, currentBuffer = currentBuffer tds,
       historical = historical tds, noHistory = noHistory tds, resolveReads = resolveReads tds,
       savePreimages = savePreimages tds, bufHeap = bufHeap tds, accHeap = accHeap tds \<rparr>"

text \<open>
  A recorded call is guarded when it is an \<^verbatim>\<open>Update\<close> or a \<^verbatim>\<open>Delete\<close> of a key that
  \<^verbatim>\<open>Get\<close> found in the trie the call was made on, or a \<^verbatim>\<open>Delete\<close> of one of the keys
  \<open>A\<close>. \<open>nil_accounts b\<close> are the address hashes that \<^verbatim>\<open>b.accountUpdates\<close> maps to
  \<^verbatim>\<open>nil\<close>: the accounts that the replay of \<open>b\<close> deletes.
\<close>

fun guarded :: "('t, 'db) env \<Rightarrow> hash list \<Rightarrow> 't call \<Rightarrow> bool" where
  "guarded E A (CallUpdate t k v) = snd (t_Get E t k)"
| "guarded E A (CallDelete t k) = (snd (t_Get E t k) \<or> k \<in> set A)"
| "guarded E A (CallDeleteSubtree t k) = True"
| "guarded E A (CallUpdateAccount t k a) = True"

definition nil_accounts :: "Buffer \<Rightarrow> hash list" where
  "nil_accounts b = map fst (filter (\<lambda>e. snd e = None) (accountUpdates b))"

abbreviation calls_guarded ::
  "('t, 'db) env \<Rightarrow> hash list \<Rightarrow> ('t \<times> 't call list, 'db) TrieDbState \<Rightarrow> bool" where
  "calls_guarded E A tds \<equiv> list_all (guarded E A) (snd (tds_t tds))"

section \<open>A small concrete instance\<close>

text \<open>
  An instance of the parameters on which the model can be run: the trie is an
  association list from keys to values, the database is the list of entries of its
  storage bucket, and the hasher returns its input.
\<close>

definition sample_account :: Account where
  "sample_account = \<lparr> Initialised = True, Nonce = 0, Balance = 0, Root = [7], CodeHash = [],
                       Incarnation = 0 \<rparr>"

definition sample_env :: "((bytes \<times> bytes) list, (bytes \<times> bytes) list) env" where
  "sample_env =
     \<lparr> HashData = (\<lambda>bs. (bs, None)),
       EmptyRoot = [],
       DecodeForStorage = (\<lambda>bs. (sample_account, None)),
       GenerateCompositeStorageKey = (\<lambda>addrHash incarnation seckey. addrHash @ seckey),
       t_Get = (\<lambda>t k. case map_of t k of Some v \<Rightarrow> (Some v, True) | None \<Rightarrow> (None, False)),
       t_GetAccount = (\<lambda>t k. (None, False)),
       t_Update = (\<lambda>t k v n. AList.update k v t),
       t_Delete = (\<lambda>t k n. AList.delete k t),
       t_DeleteSubtree = (\<lambda>t k n. filter (\<lambda>kv. \<not> prefix k (fst kv)) t),
       t_UpdateAccount = (\<lambda>t k a. AList.update k (Root a) t),
       t_DeepHash = (\<lambda>t k. (False, [])),
       t_Hash = (\<lambda>t. concat (map snd t)),
       db_Get = (\<lambda>db bkt k. (None, None)),
       db_GetAsOf = (\<lambda>db bkt hbkt k ts. (None, None)),
       db_Put = (\<lambda>db bkt k v. (db, None)),
       db_Walk = (\<lambda>db bkt k fixedbits. Inr db),
       db_WalkAsOf = (\<lambda>db bkt hbkt k fixedbits ts. Inr db) \<rparr>"

text \<open>
  The same instance with a \<^verbatim>\<open>DeepHash\<close> that finds a root where the trie holds keys below
  the given one: the values under those keys in a row.
\<close>

definition deep_env :: "((bytes \<times> bytes) list, (bytes \<times> bytes) list) env" where
  "deep_env =
     sample_env\<lparr>t_DeepHash := (\<lambda>t k.
        let below = filter (\<lambda>kv. length k < length (fst kv) \<and> take (length k) (fst kv) = k) t
        in (below \<noteq> [], concat (map snd below)))\<rparr>"

text \<open>
  The same instance with database walks that select: the entries of the storage bucket
  whose keys agree with the start key on the fixed bits (whole bytes), and a storage bucket
  with entries of two accounts.
\<close>

definition walk_env :: "((bytes \<times> bytes) list, (bytes \<times> bytes) list) env" where
  "walk_env =
     sample_env\<lparr>
       db_Walk := (\<lambda>db bkt k bits.
          if bkt = StorageBucket
          then Inr (filter (\<lambda>kv. take (bits div 8) (fst kv) = take (bits div 8) k) db)
          else Inr []),
       db_WalkAsOf := (\<lambda>db bkt hbkt k bits ts.
          if bkt = StorageBucket \<and> hbkt = StorageHistoryBucket
          then Inr (filter (\<lambda>kv. take (bits div 8) (fst kv) = take (bits div 8) k) db)
          else Inr [])\<rparr>"

definition walk_db :: "(bytes \<times> bytes) list" where
  "walk_db =
     [(replicate 32 1 @ [255, 255, 255, 255, 255, 255, 255, 253] @ replicate 32 2, [9]),
      (replicate 32 3 @ [255, 255, 255, 255, 255, 255, 255, 250] @ replicate 32 2, [9])]"

definition sample_tds :: "((bytes \<times> bytes) list, (bytes \<times> bytes) list) TrieDbState" where
  "sample_tds =
     \<lparr> tds_t = [], tds_db = [], blockNr = 1, buffers = [0], aggregateBuffer = Some 1,
       currentBuffer = Some 0, historical = False, noHistory = False, resolveReads = False,
       savePreimages = True, bufHeap = (\<lambda>p. initialise), accHeap = (\<lambda>p. sample_account) \<rparr>"

definition deleted_buffer :: Buffer where
  "deleted_buffer = initialise\<lparr>accountUpdates := [([1], Some 5), ([2], Some 6)],
                                deleted := [[1], [2]], created := [[2]]\<rparr>"

definition deleted_tds :: "((bytes \<times> bytes) list, (bytes \<times> bytes) list) TrieDbState" where
  "deleted_tds = sample_tds\<lparr>tds_t := [([1, 9], [3]), ([2, 9], [4])]\<rparr>"

definition rewind_buffer :: Buffer where
  "rewind_buffer = initialise\<lparr>storageUpdates := [([1], [([2], Some [6]), ([3], Some [7])])],
                               accountUpdates := [([1], Some 4), ([8], None)]\<rparr>"

text \<open>
  A state whose trie records the calls made on it, with the pending accounts at the storage
  root \<open>[6]\<close>.
\<close>

definition found_tds ::
  "((bytes \<times> bytes) list \<times> (bytes \<times> bytes) list call list, (bytes \<times> bytes) list) TrieDbState" where
  "found_tds =
     \<lparr> tds_t = ([([1, 2], [5])], []), tds_db = [], blockNr = 1, buffers = [0],
       aggregateBuffer = Some 1, currentBuffer = Some 0, historical = False, noHistory = False,
       resolveReads = False, savePreimages = True,
       bufHeap = (\<lambda>p. initialise)(0 := rewind_buffer),
       accHeap = (\<lambda>p. sample_account\<lparr>Root := [6]\<rparr>) \<rparr>"

definition mismatch_tds :: "((bytes \<times> bytes) list, (bytes \<times> bytes) list) TrieDbState" where
  "mismatch_tds = sample_tds\<lparr>tds_t := [([1, 2], [5])],
                             bufHeap := (\<lambda>p. initialise)(0 := rewind_buffer)\<rparr>"

text \<open>
  An instance of the resolver's parameters: the hash builder is the list of the keys and
  values it was given, its root is that list and its root hash the values in a row;
  \<^verbatim>\<open>step2\<close> does nothing; a trie is the list of the subtrees hooked into it; the database
  is the list of the entries that it emits.
\<close>

definition sample_renv ::
  "((bytes \<times> bytes) list, (bytes \<times> bytes) list, (bytes \<times> (bytes \<times> bytes) list) list,
    (nat \<times> bytes \<times> bytes) list) renv" where
  "sample_renv =
     \<lparr> step2 = (\<lambda>rs trace p c s h pre g. (pre, g, h)),
       hb_hasRoot = (\<lambda>h. h \<noteq> []),
       hb_root = (\<lambda>h. h),
       hb_rootHash = (\<lambda>h. concat (map snd h)),
       hb_Reset = (\<lambda>h. []),
       hb_setKeyValue = (\<lambda>h skip k v. h @ [(k, v)]),
       hashChildren = (\<lambda>n i. []),
       a_Decode = (\<lambda>a v. (a, None)),
       a_EncodeForHashing = (\<lambda>a. []),
       decodeNibbles = (\<lambda>nibbles dst. Return nibbles),
       t_hook = (\<lambda>t at n. t @ [(at, n)]),
       t_touchAll = (\<lambda>t n at del. t),
       db_MultiWalk = (\<lambda>db bkt keys bits. Inr db),
       db_MultiWalkAsOf = (\<lambda>db bkt hbkt keys bits ts. Inr db) \<rparr>"

definition sample_request :: "bytes \<Rightarrow> nat \<Rightarrow> bytes \<Rightarrow> ResolveRequest" where
  "sample_request hex pos h =
     \<lparr> req_t = 0, contract = [], resolveHex = hex, resolvePos = pos, extResolvePos = 0,
       resolveHash = h, RequiresRLP = False, NodeRLP = [] \<rparr>"

definition sample_resolver ::
  "ResolveRequest list \<Rightarrow> ((bytes \<times> bytes) list, (bytes \<times> (bytes \<times> bytes) list) list) TrieResolver" where
  "sample_resolver reqs =
     \<lparr> accounts = False, topLevels = 0, requests = reqs, reqIndices = [], keyIdx = 0,
       currentReq = None, currentRs = None, tr_historical = False, tr_blockNr = 1, tr_hb = [],
       rss = [], tr_prec = [], tr_curr = [], tr_succ = [], groups = [], tr_prefix = [],
       tr_a = sample_account, parentTries = (\<lambda>t. []) \<rparr>"

text \<open>
  Two requests \<open>A\<close> and \<open>B\<close> for the ranges under the nibbles 1 and 2, with the hashes
  they expect, and the states of a resolver that walks one entry under each: after
  \<^verbatim>\<open>PrepareResolveParams\<close>, after the first entry, when the first range is closed, after
  the second entry, and when the second range is closed.
\<close>

definition reqA :: "bytes \<Rightarrow> ResolveRequest" where
  "reqA h = sample_request [1, 0] 1 h"

definition reqB :: "bytes \<Rightarrow> ResolveRequest" where
  "reqB h = sample_request [2, 0] 1 h"

definition resolver_prepared ::
  "bytes \<Rightarrow> bytes \<Rightarrow> ((bytes \<times> bytes) list, (bytes \<times> (bytes \<times> bytes) list) list) TrieResolver" where
  "resolver_prepared hA hB =
     (sample_resolver [reqB hB, reqA hA])
       \<lparr>requests := [(reqA hA)\<lparr>extResolvePos := 1\<rparr>, (reqB hB)\<lparr>extResolvePos := 1\<rparr>],
        reqIndices := [0, 1],
        rss := [\<lparr>minLength = 0, hexes = [[0]]\<rparr>, \<lparr>minLength = 0, hexes = [[0]]\<rparr>],
        currentReq := Some 0, currentRs := Some 0\<rparr>"

definition resolver_first ::
  "bytes \<Rightarrow> bytes \<Rightarrow> ((bytes \<times> bytes) list, (bytes \<times> (bytes \<times> bytes) list) list) TrieResolver" where
  "resolver_first hA hB = (resolver_prepared hA hB)\<lparr>tr_succ := [0, 16], tr_hb := [([16], [7])]\<rparr>"

definition resolver_first_closed ::
  "bytes \<Rightarrow> bytes \<Rightarrow> ((bytes \<times> bytes) list, (bytes \<times> (bytes \<times> bytes) list) list) TrieResolver" where
  "resolver_first_closed hA hB = (resolver_first hA hB)\<lparr>tr_curr := [0, 16], tr_succ := []\<rparr>"

definition resolver_second ::
  "bytes \<Rightarrow> bytes \<Rightarrow> ((bytes \<times> bytes) list, (bytes \<times> (bytes \<times> bytes) list) list) TrieResolver" where
  "resolver_second hA hB =
     (resolver_prepared hA hB)
       \<lparr>tr_succ := [0, 16], tr_hb := [([32], [8])], keyIdx := 1, currentReq := Some 1,
        currentRs := Some 1, parentTries := (\<lambda>t. [])(0 := [([1], [([16], [7])])])\<rparr>"

definition resolver_second_closed ::
  "bytes \<Rightarrow> bytes \<Rightarrow> ((bytes \<times> bytes) list, (bytes \<times> (bytes \<times> bytes) list) list) TrieResolver" where
  "resolver_second_closed hA hB = (resolver_second hA hB)\<lparr>tr_curr := [0, 16], tr_succ := []\<rparr>"

definition sample_entries :: "(nat \<times> bytes \<times> bytes) list" where
  "sample_entries = [(0, [16], [7]), (1, [32], [8])]"

text \<open>
  A request \<open>C\<close> for the range of \<open>A\<close>, and the resolver that \<^verbatim>\<open>ResolveWithDb\<close> leaves
  when it is given \<open>A\<close> expecting \<open>[7]\<close>, then \<open>C\<close> expecting \<open>[9]\<close>, over a database with
  one entry.
\<close>

definition reqC :: "bytes \<Rightarrow> ResolveRequest" where
  "reqC h = sample_request [1, 5] 1 h"

definition absorbed_final ::
  "((bytes \<times> bytes) list, (bytes \<times> (bytes \<times> bytes) list) list) TrieResolver" where
  "absorbed_final =
     (sample_resolver [reqA [7], reqC [9]])
       \<lparr>requests := [(reqA [7])\<lparr>extResolvePos := 1\<rparr>, reqC [9]],
        reqIndices := [0],
        rss := [\<lparr>minLength = 0, hexes = [[0], [5]]\<rparr>],
        currentReq := Some 0, currentRs := Some 0,
        tr_hb := [([16], [7])], tr_curr := [0, 16],
        parentTries := (\<lambda>t. [])(0 := [([1], [([16], [7])])])\<rparr>"

text \<open>The state of the loop of \<^verbatim>\<open>PrepareResolveParams\<close> after one kept request.\<close>

definition absorb_kept :: prepare_state where
  "absorb_kept =
     \<lparr> startkeys = [[1, 2]], fixedbits = [8], ps_reqIndices = [0],
       ps_rss = [\<lparr>minLength = 0, hexes = [[3]]\<rparr>],
       prevReq = Some ((sample_request [1, 2, 3] 2 [])\<lparr>extResolvePos := 2\<rparr>),
       ps_done = [(sample_request [1, 2, 3] 2 [])\<lparr>extResolvePos := 2\<rparr>] \<rparr>"

definition theAccount :: address where
  "theAccount = [0x00, 0xe6, 0xF0, 0x31, 0xD7, 0xbe, 0x9a, 0xd7, 0x70, 0x23, 0x85, 0xA5, 0xDC, 0x0D,
                 0xF7, 0xbD, 0x70, 0xeB, 0x1f, 0x91]"

section \<open>Hashing without saving preimages\<close>

lemma HashAddress_nosave:
  "HashAddress E a False tds =
     ((if snd (HashData E a) = None then fst (HashData E a) else replicate 32 0, snd (HashData E a)), tds)"
  by (auto simp: HashAddress_def savePreimage_def split: prod.splits option.splits)

lemma HashKey_nosave:
  "HashKey E a False tds =
     ((if snd (HashData E a) = None then fst (HashData E a) else replicate 32 0, snd (HashData E a)), tds)"
  by (auto simp: HashKey_def savePreimage_def split: prod.splits option.splits)

lemma sample_currentBuffer: "currentBuffer sample_tds = Some 0"
  by (simp add: sample_tds_def)

lemma sample_HashData: "HashData sample_env bs = (bs, None)"
  by (simp add: sample_env_def)

section \<open>Properties of the state writer\<close>

lemma WriteAccountStorage_entry:
  assumes "currentBuffer tds = Some p"
    and "HashData E address = (addrHash, None)"
    and "HashData E key = (seckey, None)"
  shows "\<exists>tds' m. WriteAccountStorage E address inc key orig val tds = Return (None, tds') \<and>
           currentBuffer tds' = Some p \<and>
           map_of (storageUpdates (bufHeap tds' p)) addrHash = Some m \<and>
           map_of m seckey = Some (if TrimLeft val [0] = [] then None else Some (TrimLeft val [0]))"
  using assms
  by (auto simp: WriteAccountStorage_def HashAddress_nosave HashKey_nosave Let_def update_conv'
      split: option.splits)

lemma TrimLeft_zero: "TrimLeft val [0] = dropWhile (\<lambda>c. c = 0) val"
  by (simp add: TrimLeft_def)

lemma dropWhile_zero_split:
  "val = replicate (length val - length (dropWhile (\<lambda>c. c = (0::byte)) val)) 0
           @ dropWhile (\<lambda>c. c = 0) val"
proof (induction val)
  case Nil
  then show ?case by simp
next
  case (Cons c val)
  have "length (dropWhile (\<lambda>c. c = (0::byte)) val) \<le> length val"
    by (rule length_dropWhile_le)
  then show ?case using Cons by (auto simp: Suc_diff_le)
qed

lemma merge_inner_lookup:
  "distinct (map fst om) \<Longrightarrow>
   map_of (merge_inner m om) k = (case map_of om k of Some v \<Rightarrow> Some v | None \<Rightarrow> map_of m k)"
proof (induction om arbitrary: m)
  case Nil
  then show ?case by simp
next
  case (Cons kv om)
  obtain k' v' where kv: "kv = (k', v')" by (cases kv)
  from Cons.prems kv have d: "distinct (map fst om)" and nk: "k' \<notin> fst ` set om" by auto
  from nk have none: "map_of om k' = None" by (simp add: map_of_eq_None_iff)
  show ?case
    using Cons.IH[OF d, of "AList.update k' v' m"] kv none
    by (auto simp: update_conv' split: option.splits)
qed

lemma merge_storageUpdates_lookup:
  "distinct (map fst other) \<Longrightarrow>
   map_of (merge_storageUpdates su other) a =
     (case map_of other a of
        Some om \<Rightarrow> Some (merge_inner (case map_of su a of None \<Rightarrow> [] | Some m0 \<Rightarrow> m0) om)
      | None \<Rightarrow> map_of su a)"
proof (induction other arbitrary: su)
  case Nil
  then show ?case by simp
next
  case (Cons e other)
  obtain a' om' where e: "e = (a', om')" by (cases e)
  from Cons.prems e have d: "distinct (map fst other)" and nk: "a' \<notin> fst ` set other" by auto
  from nk have none: "map_of other a' = None" by (simp add: map_of_eq_None_iff)
  show ?case
    using Cons.IH[OF d] e none
    by (auto simp: update_conv' Let_def split: option.splits)
qed

text \<open>
  Claim C7. Two calls of \<^verbatim>\<open>WriteAccountStorage\<close> on one buffer with the same address and
  the same storage key leave, under that address hash and key hash, the (trimmed) value
  of the second call, whatever the first call wrote. \<^verbatim>\<open>Buffer.merge\<close> does the same
  between buffers: an entry of the buffer merged in replaces the entry of the receiving
  buffer. The association lists of the buffer merged in have each key once, as Go maps
  do.
\<close>

theorem storage_write_last_writer_wins:
  assumes "currentBuffer tds = Some p"
    and "HashData E address = (addrHash, None)"
    and "HashData E key = (seckey, None)"
    and "distinct (map fst (storageUpdates other))"
    and "map_of (storageUpdates other) a = Some om"
    and "distinct (map fst om)"
    and "map_of om k = Some w"
  shows "(case WriteAccountStorage E address incA key origA valA tds of
            Panic \<Rightarrow> False
          | Return (err1, tds1) \<Rightarrow>
              err1 = None \<and>
              (case WriteAccountStorage E address incB key origB valB tds1 of
                 Panic \<Rightarrow> False
               | Return (err2, tds2) \<Rightarrow>
                   err2 = None \<and>
                   (case map_of (storageUpdates (bufHeap tds2 p)) addrHash of
                      None \<Rightarrow> False
                    | Some m \<Rightarrow>
                        map_of m seckey =
                          Some (if TrimLeft valB [0] = [] then None else Some (TrimLeft valB [0])))))
         \<and> (case map_of (storageUpdates (merge b other)) a of
               None \<Rightarrow> False
             | Some m \<Rightarrow> map_of m k = Some w)"
proof -
  from WriteAccountStorage_entry[OF assms(1-3), of incA origA valA]
  obtain tds1 where w1: "WriteAccountStorage E address incA key origA valA tds = Return (None, tds1)"
    and cb1: "currentBuffer tds1 = Some p" by blast
  from WriteAccountStorage_entry[OF cb1 assms(2,3), of incB origB valB]
  obtain tds2 m2 where w2: "WriteAccountStorage E address incB key origB valB tds1 = Return (None, tds2)"
    and m2: "map_of (storageUpdates (bufHeap tds2 p)) addrHash = Some m2"
    and v2: "map_of m2 seckey = Some (if TrimLeft valB [0] = [] then None else Some (TrimLeft valB [0]))"
    by blast
  have first: "(case WriteAccountStorage E address incA key origA valA tds of
            Panic \<Rightarrow> False
          | Return (err1, tds1) \<Rightarrow>
              err1 = None \<and>
              (case WriteAccountStorage E address incB key origB valB tds1 of
                 Panic \<Rightarrow> False
               | Return (err2, tds2) \<Rightarrow>
                   err2 = None \<and>
                   (case map_of (storageUpdates (bufHeap tds2 p)) addrHash of
                      None \<Rightarrow> False
                    | Some m \<Rightarrow>
                        map_of m seckey =
                          Some (if TrimLeft valB [0] = [] then None else Some (TrimLeft valB [0])))))"
    by (simp add: w1 w2 m2 v2)
  have second: "(case map_of (storageUpdates (merge b other)) a of
               None \<Rightarrow> False
             | Some m \<Rightarrow> map_of m k = Some w)"
    using assms(4-7)
    by (simp add: merge_def merge_storageUpdates_lookup merge_inner_lookup)
  from first second show ?thesis by blast
qed

theorem storage_write_last_writer_wins_witness:
  "currentBuffer sample_tds = Some 0
   \<and> HashData sample_env [1] = ([1], None)
   \<and> HashData sample_env [2] = ([2], None)
   \<and> distinct (map fst (storageUpdates (initialise\<lparr>storageUpdates := [([1], [([2], Some [3])])]\<rparr>)))
   \<and> map_of (storageUpdates (initialise\<lparr>storageUpdates := [([1], [([2], Some [3])])]\<rparr>)) [1]
       = Some [([2], Some [3])]
   \<and> distinct (map fst [([2], Some [3 :: byte])])
   \<and> map_of [([2 :: byte], Some [3 :: byte])] [2] = Some (Some [3])
   \<and> (case WriteAccountStorage sample_env [1] 0 [2] [] [0, 0, 5] sample_tds of
         Panic \<Rightarrow> False
       | Return (err1, tds1) \<Rightarrow>
           err1 = None \<and>
           (case WriteAccountStorage sample_env [1] 0 [2] [] [0, 9] tds1 of
              Panic \<Rightarrow> False
            | Return (err2, tds2) \<Rightarrow>
                err2 = None \<and>
                (case map_of (storageUpdates (bufHeap tds2 0)) [1] of
                   None \<Rightarrow> False
                 | Some m \<Rightarrow>
                     map_of m [2] =
                       Some (if TrimLeft [0, 9] [0] = [] then None else Some (TrimLeft [0, 9] [0])))))
   \<and> (case map_of (storageUpdates
                (merge (initialise\<lparr>storageUpdates := [([1], [([2], Some [4])])]\<rparr>)
                       (initialise\<lparr>storageUpdates := [([1], [([2], Some [3])])]\<rparr>))) [1] of
         None \<Rightarrow> False
       | Some m \<Rightarrow> map_of m [2] = Some (Some [3]))"
proof -
  have h4: "distinct (map fst (storageUpdates (initialise\<lparr>storageUpdates := [([1], [([2], Some [3])])]\<rparr>)))"
    by simp
  have h5: "map_of (storageUpdates (initialise\<lparr>storageUpdates := [([1], [([2], Some [3])])]\<rparr>)) [1]
       = Some [([2], Some [3])]"
    by simp
  have h6: "distinct (map fst [([2], Some [3 :: byte])])" by simp
  have h7: "map_of [([2 :: byte], Some [3 :: byte])] [2] = Some (Some [3])" by simp
  from storage_write_last_writer_wins[OF sample_currentBuffer sample_HashData sample_HashData
      h4 h5 h6 h7, where incA = 0 and origA = "[]" and valA = "[0, 0, 5]" and incB = 0
      and origB = "[]" and valB = "[0, 9]"
      and b = "initialise\<lparr>storageUpdates := [([1], [([2], Some [4])])]\<rparr>"]
    sample_currentBuffer sample_HashData[of "[1]"] sample_HashData[of "[2]"] h4 h5 h6 h7
  show ?thesis by blast
qed

text \<open>
  Claim C8. In \<^verbatim>\<open>TrieStateWriter.DeleteAccount\<close> the guard \<^verbatim>\<open>err != err\<close> never fires:
  on a state with a current buffer the call returns \<^verbatim>\<open>nil\<close> even when hashing the
  address reported an error, and afterwards the current buffer maps the address hash to
  \<^verbatim>\<open>nil\<close> in \<^verbatim>\<open>accountUpdates\<close>, has no \<^verbatim>\<open>storageUpdates\<close> entry for it, and has it in
  \<^verbatim>\<open>deleted\<close>.
\<close>

theorem DeleteAccount_never_fails:
  assumes "currentBuffer tds = Some p"
  shows "case DeleteAccount E address original tds of
           Panic \<Rightarrow> False
         | Return (err, tds') \<Rightarrow>
             err = None \<and>
             (let addrHash = fst (fst (HashAddress E address False tds)); b' = bufHeap tds' p
              in map_of (accountUpdates b') addrHash = Some None \<and>
                 map_of (storageUpdates b') addrHash = None \<and>
                 addrHash \<in> set (deleted b'))"
  using assms
  by (simp add: DeleteAccount_def HashAddress_nosave Let_def update_conv' delete_conv')

theorem DeleteAccount_never_fails_witness:
  "currentBuffer sample_tds = Some 0 \<and>
   DeleteAccount sample_env [1] None sample_tds =
     Return (None, sample_tds\<lparr>bufHeap := (bufHeap sample_tds)
       (0 := initialise\<lparr>accountUpdates := [([1], None)], deleted := [[1]]\<rparr>)\<rparr>)"
proof -
  have e: "DeleteAccount sample_env [1] None sample_tds =
     Return (None, sample_tds\<lparr>bufHeap := (bufHeap sample_tds)
       (0 := initialise\<lparr>accountUpdates := [([1], None)], deleted := [[1]]\<rparr>)\<rparr>)"
    by (simp add: DeleteAccount_def HashAddress_nosave sample_env_def sample_tds_def
        initialise_def Let_def)
  from DeleteAccount_never_fails[OF sample_currentBuffer,
      where E = sample_env and address = "[1]" and original = None]
    sample_currentBuffer e
  show ?thesis by simp
qed

text \<open>
  Claim C9. \<^verbatim>\<open>TrieStateWriter.WriteAccountStorage\<close> stores the value without its leading
  zero bytes (what is stored, put after the zeros dropped, is the value again, and does
  not start with a zero), and stores \<^verbatim>\<open>nil\<close> when the value is all zeros; replaying a
  \<^verbatim>\<open>nil\<close> entry going forward is a \<^verbatim>\<open>Delete\<close> of the slot's composite key.
\<close>

theorem WriteAccountStorage_trims_zeros:
  assumes "currentBuffer tds = Some p"
    and "HashData E address = (addrHash, None)"
    and "HashData E key = (seckey, None)"
  shows "(case WriteAccountStorage E address inc key orig val tds of
            Panic \<Rightarrow> False
          | Return (err, tds') \<Rightarrow>
              err = None \<and>
              (case map_of (storageUpdates (bufHeap tds' p)) addrHash of
                 None \<Rightarrow> False
               | Some m \<Rightarrow>
                   map_of m seckey =
                     Some (if (\<forall>c \<in> set val. c = 0) then None
                           else Some (dropWhile (\<lambda>c. c = 0) val))))
         \<and> (let v = dropWhile (\<lambda>c. c = 0) val
            in val = replicate (length val - length v) 0 @ v \<and> (v \<noteq> [] \<longrightarrow> hd v \<noteq> 0))
         \<and> storage_item E True addrHash (seckey, None) s =
             s\<lparr>tds_t := t_Delete E (tds_t s) (GenerateCompositeTrieKey addrHash seckey) (blockNr s)\<rparr>"
proof -
  from WriteAccountStorage_entry[OF assms, of inc orig val]
  obtain tds' m where w: "WriteAccountStorage E address inc key orig val tds = Return (None, tds')"
    and m: "map_of (storageUpdates (bufHeap tds' p)) addrHash = Some m"
    and v: "map_of m seckey = Some (if TrimLeft val [0] = [] then None else Some (TrimLeft val [0]))"
    by blast
  have z: "(TrimLeft val [0] = []) = (\<forall>c \<in> set val. c = 0)"
    by (simp add: TrimLeft_zero dropWhile_eq_Nil_conv)
  have a: "(case WriteAccountStorage E address inc key orig val tds of
            Panic \<Rightarrow> False
          | Return (err, tds') \<Rightarrow>
              err = None \<and>
              (case map_of (storageUpdates (bufHeap tds' p)) addrHash of
                 None \<Rightarrow> False
               | Some m \<Rightarrow>
                   map_of m seckey =
                     Some (if (\<forall>c \<in> set val. c = 0) then None
                           else Some (dropWhile (\<lambda>c. c = 0) val))))"
    using v z by (simp add: w m TrimLeft_zero)
  have b: "(let v = dropWhile (\<lambda>c. c = 0) val
            in val = replicate (length val - length v) 0 @ v \<and> (v \<noteq> [] \<longrightarrow> hd v \<noteq> 0))"
    using dropWhile_zero_split[of val] hd_dropWhile[of "\<lambda>c. c = (0::byte)" val]
    by (simp add: Let_def)
  have c: "storage_item E True addrHash (seckey, None) s =
             s\<lparr>tds_t := t_Delete E (tds_t s) (GenerateCompositeTrieKey addrHash seckey) (blockNr s)\<rparr>"
    by (simp add: storage_item_def)
  from a b c show ?thesis by blast
qed

theorem WriteAccountStorage_trims_zeros_witness:
  "currentBuffer sample_tds = Some 0
   \<and> HashData sample_env [1] = ([1], None)
   \<and> HashData sample_env [2] = ([2], None)
   \<and> WriteAccountStorage sample_env [1] 0 [2] [] [0, 0, 5, 0] sample_tds =
       Return (None, sample_tds\<lparr>bufHeap := (bufHeap sample_tds)
         (0 := initialise\<lparr>storageUpdates := [([1], [([2], Some [5, 0])])]\<rparr>)\<rparr>)
   \<and> WriteAccountStorage sample_env [1] 0 [2] [] [0, 0, 0, 0] sample_tds =
       Return (None, sample_tds\<lparr>bufHeap := (bufHeap sample_tds)
         (0 := initialise\<lparr>storageUpdates := [([1], [([2], None)])]\<rparr>)\<rparr>)
   \<and> storage_item sample_env True [1] ([2], None) (sample_tds\<lparr>tds_t := [([1, 2], [5, 0])]\<rparr>) =
       sample_tds\<lparr>tds_t := []\<rparr>"
proof -
  have e1: "WriteAccountStorage sample_env [1] 0 [2] [] [0, 0, 5, 0] sample_tds =
       Return (None, sample_tds\<lparr>bufHeap := (bufHeap sample_tds)
         (0 := initialise\<lparr>storageUpdates := [([1], [([2], Some [5, 0])])]\<rparr>)\<rparr>)"
    by (simp add: WriteAccountStorage_def HashAddress_nosave HashKey_nosave sample_env_def
        sample_tds_def initialise_def Let_def TrimLeft_def)
  have e2: "WriteAccountStorage sample_env [1] 0 [2] [] [0, 0, 0, 0] sample_tds =
       Return (None, sample_tds\<lparr>bufHeap := (bufHeap sample_tds)
         (0 := initialise\<lparr>storageUpdates := [([1], [([2], None)])]\<rparr>)\<rparr>)"
    by (simp add: WriteAccountStorage_def HashAddress_nosave HashKey_nosave sample_env_def
        sample_tds_def initialise_def Let_def TrimLeft_def)
  have e3: "storage_item sample_env True [1] ([2], None) (sample_tds\<lparr>tds_t := [([1, 2], [5, 0])]\<rparr>) =
       sample_tds\<lparr>tds_t := []\<rparr>"
    using WriteAccountStorage_trims_zeros[OF sample_currentBuffer sample_HashData sample_HashData,
        where inc = 0 and orig = "[]" and val = "[0, 0, 0, 0]"
        and s = "sample_tds\<lparr>tds_t := [([1, 2], [5, 0])]\<rparr>"]
    by (simp add: sample_env_def sample_tds_def GenerateCompositeTrieKey_def)
  from sample_currentBuffer sample_HashData[of "[1]"] sample_HashData[of "[2]"] e1 e2 e3
  show ?thesis by blast
qed

section \<open>Properties of the state reader\<close>

text \<open>
  Claim C10. When the address hashes without error and its hash is in the \<^verbatim>\<open>deleted\<close>
  set of the current buffer or of the aggregate buffer, \<^verbatim>\<open>ReadAccountStorage\<close> returns
  \<^verbatim>\<open>(nil, nil)\<close> and leaves the state as it was, for every storage key and incarnation
  and whatever the trie and the database hold.
\<close>

theorem ReadAccountStorage_deleted:
  assumes "HashData E address = (addrHash, None)"
    and "(case currentBuffer tds of None \<Rightarrow> False | Some p \<Rightarrow> addrHash \<in> set (deleted (bufHeap tds p)))
         \<or> (case aggregateBuffer tds of None \<Rightarrow> False | Some q \<Rightarrow> addrHash \<in> set (deleted (bufHeap tds q)))"
  shows "ReadAccountStorage E address incarnation key tds = Return ((None, None), tds)"
  using assms
  by (auto simp: ReadAccountStorage_def HashAddress_nosave in_deleted_def)

theorem ReadAccountStorage_deleted_witness:
  "HashData sample_env [1] = ([1], None)
   \<and> (case aggregateBuffer
             (sample_tds\<lparr>tds_t := [([1, 2], [5])],
                         bufHeap := (bufHeap sample_tds)(1 := initialise\<lparr>deleted := [[1]]\<rparr>)\<rparr>) of
         None \<Rightarrow> False
       | Some q \<Rightarrow> [1] \<in> set (deleted
           (bufHeap (sample_tds\<lparr>tds_t := [([1, 2], [5])],
                      bufHeap := (bufHeap sample_tds)(1 := initialise\<lparr>deleted := [[1]]\<rparr>)\<rparr>) q)))
   \<and> ReadAccountStorage sample_env [1] 0 [2]
         (sample_tds\<lparr>tds_t := [([1, 2], [5])],
                     bufHeap := (bufHeap sample_tds)(1 := initialise\<lparr>deleted := [[1]]\<rparr>)\<rparr>)
       = Return ((None, None),
           sample_tds\<lparr>tds_t := [([1, 2], [5])],
                      bufHeap := (bufHeap sample_tds)(1 := initialise\<lparr>deleted := [[1]]\<rparr>)\<rparr>)
   \<and> ReadAccountStorage sample_env [1] 0 [2] (sample_tds\<lparr>tds_t := [([1, 2], [5])]\<rparr>)
       = Return ((Some [5], None), sample_tds\<lparr>tds_t := [([1, 2], [5])]\<rparr>)"
proof -
  have h2: "(case aggregateBuffer
             (sample_tds\<lparr>tds_t := [([1, 2], [5])],
                         bufHeap := (bufHeap sample_tds)(1 := initialise\<lparr>deleted := [[1]]\<rparr>)\<rparr>) of
         None \<Rightarrow> False
       | Some q \<Rightarrow> [1] \<in> set (deleted
           (bufHeap (sample_tds\<lparr>tds_t := [([1, 2], [5])],
                      bufHeap := (bufHeap sample_tds)(1 := initialise\<lparr>deleted := [[1]]\<rparr>)\<rparr>) q)))"
    by (simp add: sample_tds_def)
  have e: "ReadAccountStorage sample_env [1] 0 [2] (sample_tds\<lparr>tds_t := [([1, 2], [5])]\<rparr>)
       = Return ((Some [5], None), sample_tds\<lparr>tds_t := [([1, 2], [5])]\<rparr>)"
    by (simp add: ReadAccountStorage_def HashAddress_nosave HashKey_nosave in_deleted_def
        sample_env_def sample_tds_def initialise_def GenerateCompositeTrieKey_def)
  from ReadAccountStorage_deleted[OF sample_HashData disjI2, OF h2,
      where incarnation = 0 and key = "[2]"]
    sample_HashData[of "[1]"] h2 e
  show ?thesis by blast
qed

text \<open>
  Claim C6 says that \<^verbatim>\<open>ReadAccountData\<close> returns \<^verbatim>\<open>(nil, nil)\<close> for every address whose
  account is neither in the trie nor in the database. For the address
  \<^verbatim>\<open>0x00e6F031D7be9ad7702385A5DC0DF7bD70eB1f91\<close> the code instead dereferences the
  \<^verbatim>\<open>nil\<close> account to print its balance: on the sample state, where the trie and the
  database are empty, the call panics, while for another address it returns
  \<^verbatim>\<open>(nil, nil)\<close>.
\<close>

theorem ReadAccountData_theAccount_panics:
  "ReadAccountData sample_env theAccount sample_tds = Panic
   \<and> ReadAccountData sample_env [1] sample_tds = Return ((None, None), sample_tds)"
proof -
  have f: "EqualFold (Hex theAccount) theAccountHex" by code_simp
  have g: "\<not> EqualFold (Hex [1]) theAccountHex" by code_simp
  have r: "readAccountDataByHash sample_env a sample_tds = (None, None)" for a
    by (simp add: readAccountDataByHash_def sample_env_def sample_tds_def)
  have p: "ReadAccountData sample_env theAccount sample_tds = Panic"
    using f by (simp add: ReadAccountData_def Let_def sample_HashData r) (simp add: sample_tds_def)
  have q: "ReadAccountData sample_env [1] sample_tds = Return ((None, None), sample_tds)"
    using g by (simp add: ReadAccountData_def Let_def sample_HashData r) (simp add: sample_tds_def)
  from p q show ?thesis by blast
qed

section \<open>Properties of nextIncarnation\<close>

lemma walk_first:
  "32 \<le> length k \<Longrightarrow>
   Walk (Inr ((k, v) # es)) incarnation_walker (ib, f) =
     (Return None, (copy_bytes ib (drop 32 k), True))"
  by (simp add: Walk_def incarnation_walker_def)

lemma copy_eight: "40 \<le> length k \<Longrightarrow> copy_bytes (replicate 8 0) (drop 32 k) = take 8 (drop 32 k)"
  by (simp add: copy_bytes_def)

text \<open>
  Claim C5. \<^verbatim>\<open>nextIncarnation\<close> walks the storage bucket from the start key
  \<open>addrHash \<parallel> 0\<dots>0\<close> with the 256 bits of the 32-byte address hash fixed (\<^verbatim>\<open>Walk\<close>, or
  \<^verbatim>\<open>WalkAsOf\<close> at \<^verbatim>\<open>tds.blockNr\<close> with the storage history bucket when the state is
  historical). When that walk has no entry, it returns 0. When it has one, the result is
  the bitwise complement of the big-endian 64-bit field at bytes 32 to 39 of the first key,
  plus 1; so when that field holds the complement of an incarnation \<open>i\<close>, the result is
  \<open>i + 1\<close>.
\<close>

theorem nextIncarnation_value:
  assumes "length addrHash = 32"
    and "if historical tds
         then db_WalkAsOf E (tds_db tds) StorageBucket StorageHistoryBucket
                (addrHash @ replicate 48 0) 256 (blockNr tds) = Inr es
         else db_Walk E (tds_db tds) StorageBucket (addrHash @ replicate 40 0) 256 = Inr es"
  shows "(es = [] \<longrightarrow> nextIncarnation E addrHash tds = Return (0, None))
       \<and> (\<forall>k v rest. es = (k, v) # rest \<and> 40 \<le> length k \<longrightarrow>
            nextIncarnation E addrHash tds
              = Return (NOT (be_uint64 (take 8 (drop 32 k))) + 1, None)
            \<and> (\<forall>i. be_uint64 (take 8 (drop 32 k)) = NOT i \<longrightarrow>
                  nextIncarnation E addrHash tds = Return (i + 1, None)))"
proof -
  have rng: "storage_range E addrHash tds = Inr es"
    using assms by (simp add: storage_range_def copy_bytes_def split: if_splits)
  have empty: "es = [] \<Longrightarrow> nextIncarnation E addrHash tds = Return (0, None)"
    using rng by (simp add: nextIncarnation_def Walk_def)
  have first: "nextIncarnation E addrHash tds = Return (NOT (be_uint64 (take 8 (drop 32 k))) + 1, None)"
    if "es = (k, v) # rest" and "40 \<le> length k" for k v rest
    using rng that by (simp add: nextIncarnation_def walk_first copy_eight)
  show ?thesis using empty first by auto
qed

lemma walk_env_Walk:
  "db_Walk walk_env db StorageBucket k 256 = Inr (filter (\<lambda>kv. take 32 (fst kv) = take 32 k) db)"
  "db_WalkAsOf walk_env db StorageBucket StorageHistoryBucket k 256 ts
     = Inr (filter (\<lambda>kv. take 32 (fst kv) = take 32 k) db)"
  by (simp_all add: walk_env_def sample_env_def)

theorem nextIncarnation_value_witness:
  "length (replicate 32 (1 :: byte)) = 32
   \<and> db_Walk walk_env walk_db StorageBucket (replicate 32 1 @ replicate 40 0) 256
       = Inr [(replicate 32 1 @ [255, 255, 255, 255, 255, 255, 255, 253] @ replicate 32 2, [9])]
   \<and> nextIncarnation walk_env (replicate 32 1) (sample_tds\<lparr>tds_db := walk_db\<rparr>) = Return (3, None)
   \<and> db_Walk walk_env walk_db StorageBucket (replicate 32 3 @ replicate 40 0) 256
       = Inr [(replicate 32 3 @ [255, 255, 255, 255, 255, 255, 255, 250] @ replicate 32 2, [9])]
   \<and> nextIncarnation walk_env (replicate 32 3) (sample_tds\<lparr>tds_db := walk_db\<rparr>) = Return (6, None)
   \<and> db_Walk walk_env walk_db StorageBucket (replicate 32 5 @ replicate 40 0) 256 = Inr []
   \<and> nextIncarnation walk_env (replicate 32 5) (sample_tds\<lparr>tds_db := walk_db\<rparr>) = Return (0, None)
   \<and> db_WalkAsOf walk_env walk_db StorageBucket StorageHistoryBucket
         (replicate 32 3 @ replicate 48 0) 256 1
       = Inr [(replicate 32 3 @ [255, 255, 255, 255, 255, 255, 255, 250] @ replicate 32 2, [9])]
   \<and> nextIncarnation walk_env (replicate 32 3) (sample_tds\<lparr>tds_db := walk_db, historical := True\<rparr>)
       = Return (6, None)"
proof -
  let ?k1 = "replicate 32 1 @ [255, 255, 255, 255, 255, 255, 255, 253] @ replicate 32 (2 :: byte)"
  let ?k3 = "replicate 32 3 @ [255, 255, 255, 255, 255, 255, 255, 250] @ replicate 32 (2 :: byte)"
  let ?tds = "sample_tds\<lparr>tds_db := walk_db\<rparr>"
  let ?hist = "sample_tds\<lparr>tds_db := walk_db, historical := True\<rparr>"
  have st: "\<not> historical ?tds" "tds_db ?tds = walk_db" "historical ?hist" "tds_db ?hist = walk_db"
    "blockNr ?hist = 1"
    by (simp_all add: sample_tds_def)
  have len: "length (replicate 32 (b :: byte)) = 32" for b by simp
  have w1: "db_Walk walk_env walk_db StorageBucket (replicate 32 1 @ replicate 40 0) 256 = Inr [(?k1, [9])]"
    by (simp add: walk_env_Walk walk_db_def)
  have w3: "db_Walk walk_env walk_db StorageBucket (replicate 32 3 @ replicate 40 0) 256 = Inr [(?k3, [9])]"
    by (simp add: walk_env_Walk walk_db_def)
  have w5: "db_Walk walk_env walk_db StorageBucket (replicate 32 5 @ replicate 40 0) 256 = Inr []"
    by (simp add: walk_env_Walk walk_db_def)
  have h3: "db_WalkAsOf walk_env walk_db StorageBucket StorageHistoryBucket
              (replicate 32 3 @ replicate 48 0) 256 1 = Inr [(?k3, [9])]"
    by (simp add: walk_env_Walk walk_db_def)
  have l1: "40 \<le> length ?k1" and l3: "40 \<le> length ?k3" by simp_all
  have f1: "be_uint64 (take 8 (drop 32 ?k1)) = NOT 2"
    by (simp add: be_uint64_def)
  have f3: "be_uint64 (take 8 (drop 32 ?k3)) = NOT 5"
    by (simp add: be_uint64_def)
  have a1: "nextIncarnation walk_env (replicate 32 1) ?tds = Return (2 + 1, None)"
    using nextIncarnation_value[where E = walk_env and tds = ?tds, OF len, of 1 "[(?k1, [9])]"]
      st w1 l1 f1 by auto
  have a3: "nextIncarnation walk_env (replicate 32 3) ?tds = Return (5 + 1, None)"
    using nextIncarnation_value[where E = walk_env and tds = ?tds, OF len, of 3 "[(?k3, [9])]"]
      st w3 l3 f3 by auto
  have a5: "nextIncarnation walk_env (replicate 32 5) ?tds = Return (0, None)"
    using nextIncarnation_value[where E = walk_env and tds = ?tds, OF len, of 5 "[]"]
      st w5 by auto
  have b3: "nextIncarnation walk_env (replicate 32 3) ?hist = Return (5 + 1, None)"
    using nextIncarnation_value[where E = walk_env and tds = ?hist, OF len, of 3 "[(?k3, [9])]"]
      st h3 l3 f3 by auto
  from len w1 a1 w3 a3 w5 a5 h3 b3 show ?thesis by simp
qed

section \<open>Properties of updateTrieRoots: the deleted accounts\<close>

lemma on_account_Root:
  "Root (on_account m a (\<lambda>account. account\<lparr>Root := r\<rparr>) heap p) =
     (if map_of m a = Some (Some p) then r else Root (heap p))"
  by (auto simp: on_account_def split: option.splits)

lemma on_account_other:
  "map_of m a \<noteq> Some (Some p) \<Longrightarrow> on_account m a f heap p = heap p"
  by (auto simp: on_account_def split: option.splits)

lemma deleted_loop_blockNr: "blockNr (deleted_loop E b aU ds tds) = blockNr tds"
  by (induction ds arbitrary: tds) (auto simp: Let_def)

lemma deleted_loop_trie:
  "tds_t (deleted_loop E b aU ds tds) =
     foldl (\<lambda>t a. t_DeleteSubtree E t a (blockNr tds)) (tds_t tds)
       (filter (\<lambda>a. a \<notin> set (created b)) ds)"
  by (induction ds arbitrary: tds) (auto simp: Let_def)

lemma deleted_loop_keeps_empty:
  "Root (accHeap tds p) = EmptyRoot E \<Longrightarrow>
   Root (accHeap (deleted_loop E b aU ds tds) p) = EmptyRoot E"
  by (induction ds arbitrary: tds) (auto simp: Let_def on_account_Root)

lemma deleted_loop_roots:
  "a \<in> set ds \<Longrightarrow> a \<notin> set (created b) \<Longrightarrow>
   map_of (accountUpdates b) a = Some (Some p) \<or> map_of aU a = Some (Some p) \<Longrightarrow>
   Root (accHeap (deleted_loop E b aU ds tds) p) = EmptyRoot E"
proof (induction ds arbitrary: tds)
  case Nil
  then show ?case by simp
next
  case (Cons d ds)
  show ?case
  proof (cases "d = a")
    case True
    with Cons.prems show ?thesis
      by (auto simp: Let_def on_account_Root intro!: deleted_loop_keeps_empty)
  next
    case False
    with Cons.prems have "a \<in> set ds" by simp
    from Cons.IH[OF this Cons.prems(2,3)] show ?thesis
      by (auto simp: Let_def)
  qed
qed

lemma deleted_loop_frame:
  "(\<forall>a \<in> set ds. a \<notin> set (created b) \<longrightarrow>
      map_of (accountUpdates b) a \<noteq> Some (Some p) \<and> map_of aU a \<noteq> Some (Some p)) \<Longrightarrow>
   accHeap (deleted_loop E b aU ds tds) p = accHeap tds p"
  by (induction ds arbitrary: tds) (auto simp: Let_def on_account_other)

lemma storageUpdates_loop_forward:
  "fst (storageUpdates_loop E True b aU su tds) = None"
  by (induction su arbitrary: tds) (auto simp: storage_root_def Let_def)

lemma buffer_step_forward:
  assumes "created_loop E b aU (created b) (ac, tds) = Return (None, ac1, tds1)"
  shows "buffer_step E True aU b (ac, roots, tds) =
     (let tds2 = snd (storageUpdates_loop E True b aU (storageUpdates b)
                        (accountUpdates_loop E (accountUpdates b) tds1));
          tds3 = deleted_loop E b aU (deleted b) tds2
      in Return (None, ac1, roots @ [t_Hash E (tds_t tds3)], tds3))"
proof -
  obtain e tds2 where s: "storageUpdates_loop E True b aU (storageUpdates b)
                        (accountUpdates_loop E (accountUpdates b) tds1) = (e, tds2)"
    by (cases "storageUpdates_loop E True b aU (storageUpdates b)
                        (accountUpdates_loop E (accountUpdates b) tds1)")
  with storageUpdates_loop_forward[of E b aU "storageUpdates b" "accountUpdates_loop E (accountUpdates b) tds1"]
  have "e = None" by simp
  with s assms show ?thesis
    by (simp add: buffer_step_def andThen_def Let_def)
qed


text \<open>
  Claim C3. The loop of \<^verbatim>\<open>updateTrieRoots\<close> over \<^verbatim>\<open>b.deleted\<close>. Its trie is the
  starting trie with \<^verbatim>\<open>DeleteSubtree\<close> applied, in order, for exactly the deleted
  addresses that are not in \<^verbatim>\<open>b.created\<close>. For each of those, the account records that
  \<^verbatim>\<open>b.accountUpdates\<close> and the aggregate \<^verbatim>\<open>accountUpdates\<close> point to (when there is an
  entry and it is not \<^verbatim>\<open>nil\<close>) have the empty root afterwards; account records that no
  such entry points to are untouched. For an address that is also in \<^verbatim>\<open>b.created\<close> the
  iteration changes nothing. Going forward, the replay of a buffer whose \<^verbatim>\<open>created\<close>
  loop returns without error ends with this loop, and the buffer's root is the hash of
  the trie it leaves.
\<close>

theorem deleted_loop_clears_storage:
  "tds_t (deleted_loop E b aU (deleted b) tds) =
     foldl (\<lambda>t a. t_DeleteSubtree E t a (blockNr tds)) (tds_t tds)
       (filter (\<lambda>a. a \<notin> set (created b)) (deleted b))
   \<and> (\<forall>a \<in> set (deleted b). a \<notin> set (created b) \<longrightarrow>
        (\<forall>p. map_of (accountUpdates b) a = Some (Some p) \<or> map_of aU a = Some (Some p) \<longrightarrow>
           Root (accHeap (deleted_loop E b aU (deleted b) tds) p) = EmptyRoot E))
   \<and> (\<forall>p. (\<forall>a \<in> set (deleted b). a \<notin> set (created b) \<longrightarrow>
              map_of (accountUpdates b) a \<noteq> Some (Some p) \<and> map_of aU a \<noteq> Some (Some p)) \<longrightarrow>
        accHeap (deleted_loop E b aU (deleted b) tds) p = accHeap tds p)
   \<and> (\<forall>a. a \<in> set (created b) \<longrightarrow> deleted_loop E b aU [a] tds = tds)
   \<and> (\<forall>ac ac1 roots tds0 tds1.
        created_loop E b aU (created b) (ac, tds0) = Return (None, ac1, tds1) \<longrightarrow>
        buffer_step E True aU b (ac, roots, tds0) =
          (let tds2 = snd (storageUpdates_loop E True b aU (storageUpdates b)
                             (accountUpdates_loop E (accountUpdates b) tds1));
               tds3 = deleted_loop E b aU (deleted b) tds2
           in Return (None, ac1, roots @ [t_Hash E (tds_t tds3)], tds3)))"
  using deleted_loop_trie[of E b aU "deleted b" tds]
    deleted_loop_roots[of _ "deleted b" b _ aU E tds]
    deleted_loop_frame[of "deleted b" b _ aU E tds]
    buffer_step_forward[of E b aU]
  by (intro conjI) (simp, blast, blast, simp, blast)

theorem deleted_loop_clears_storage_witness:
  "[1] \<in> set (deleted deleted_buffer) \<and> [1] \<notin> set (created deleted_buffer)
   \<and> map_of (accountUpdates deleted_buffer) [1] = Some (Some 5)
   \<and> Root (accHeap (deleted_loop sample_env deleted_buffer [([1], Some 7)] (deleted deleted_buffer) deleted_tds) 5) = []
   \<and> Root (accHeap (deleted_loop sample_env deleted_buffer [([1], Some 7)] (deleted deleted_buffer) deleted_tds) 7) = []
   \<and> accHeap (deleted_loop sample_env deleted_buffer [([1], Some 7)] (deleted deleted_buffer) deleted_tds) 6
       = sample_account
   \<and> tds_t (deleted_loop sample_env deleted_buffer [([1], Some 7)] (deleted deleted_buffer) deleted_tds)
       = [([2, 9], [4])]
   \<and> [2] \<in> set (created deleted_buffer)
   \<and> deleted_loop sample_env deleted_buffer [([1], Some 7)] [[2]] deleted_tds = deleted_tds"
proof -
  note inst = deleted_loop_clears_storage[where E = sample_env and b = deleted_buffer
      and aU = "[([1], Some 7)]" and tds = deleted_tds]
  have d: "[1] \<in> set (deleted deleted_buffer)" "[1] \<notin> set (created deleted_buffer)"
    "[2] \<in> set (created deleted_buffer)"
    "map_of (accountUpdates deleted_buffer) [1] = Some (Some 5)"
    by (simp_all add: deleted_buffer_def initialise_def)
  have m7: "map_of [([1 :: byte], Some (7 :: nat))] [1] = Some (Some 7)" by simp
  from inst d have r5: "Root (accHeap (deleted_loop sample_env deleted_buffer [([1], Some 7)]
      (deleted deleted_buffer) deleted_tds) 5) = EmptyRoot sample_env"
    by blast
  from inst d m7 have r7: "Root (accHeap (deleted_loop sample_env deleted_buffer [([1], Some 7)]
      (deleted deleted_buffer) deleted_tds) 7) = EmptyRoot sample_env"
    by blast
  from inst d have skip: "deleted_loop sample_env deleted_buffer [([1], Some 7)] [[2]] deleted_tds = deleted_tds"
    by blast
  have e: "EmptyRoot sample_env = []" by (simp add: sample_env_def)
  have run: "deleted_loop sample_env deleted_buffer [([1], Some 7)] (deleted deleted_buffer) deleted_tds
     = deleted_tds\<lparr>tds_t := [([2, 9], [4])],
         accHeap := (accHeap deleted_tds)(5 := sample_account\<lparr>Root := []\<rparr>, 7 := sample_account\<lparr>Root := []\<rparr>)\<rparr>"
    by (simp add: deleted_buffer_def initialise_def deleted_tds_def sample_tds_def sample_env_def
        on_account_def Let_def)
  have a6: "accHeap (deleted_loop sample_env deleted_buffer [([1], Some 7)] (deleted deleted_buffer) deleted_tds) 6
       = sample_account"
    by (simp add: run) (simp add: deleted_tds_def sample_tds_def)
  have t: "tds_t (deleted_loop sample_env deleted_buffer [([1], Some 7)] (deleted deleted_buffer) deleted_tds)
       = [([2, 9], [4])]"
    by (simp add: run)
  from d r5 r7 skip e a6 t show ?thesis by simp
qed

section \<open>Properties of updateTrieRoots: rewinding\<close>

lemma storage_item_rewind:
  "storage_item E False a (k, v) tds =
     (if snd (t_Get E (tds_t tds) (GenerateCompositeTrieKey a k))
      then storage_item E True a (k, v) tds else tds)"
  by (simp add: storage_item_def Let_def)

lemma storage_item_inv:
  "calls_guarded E A tds \<Longrightarrow> calls_guarded E A (storage_item (traced E) False a kv tds)"
  by (cases kv) (auto simp: storage_item_def traced_def Let_def)

lemma storage_items_inv:
  "calls_guarded E A tds \<Longrightarrow> calls_guarded E A (storage_items (traced E) False a m tds)"
  by (induction m arbitrary: tds) (auto simp: storage_item_inv)

lemma storage_root_rewind_state: "snd (storage_root E False b aU a tds) = tds"
  by (auto simp: storage_root_def split: option.splits)

lemma storageUpdates_loop_inv:
  "calls_guarded E A tds \<Longrightarrow> calls_guarded E A (snd (storageUpdates_loop (traced E) False b aU su tds))"
proof (induction su arbitrary: tds)
  case Nil
  then show ?case by simp
next
  case (Cons e su)
  obtain a m where e: "e = (a, m)" by (cases e)
  let ?t1 = "storage_items (traced E) False a m tds"
  have i1: "calls_guarded E A ?t1" using Cons.prems by (rule storage_items_inv)
  obtain r t2 where sr: "storage_root (traced E) False b aU a ?t1 = (r, t2)"
    by (cases "storage_root (traced E) False b aU a ?t1")
  with storage_root_rewind_state[of "traced E" b aU a ?t1] have t2: "t2 = ?t1" by simp
  show ?case
    using Cons.IH[OF i1] e sr t2 i1 by (cases r) auto
qed

lemma accountUpdates_loop_inv:
  "calls_guarded E A tds \<Longrightarrow> \<forall>a. (a, None) \<in> set au \<longrightarrow> a \<in> set A \<Longrightarrow>
   calls_guarded E A (accountUpdates_loop (traced E) au tds)"
proof (induction au arbitrary: tds)
  case Nil
  then show ?case by simp
next
  case (Cons e au)
  obtain a acc where e: "e = (a, acc)" by (cases e)
  from Cons.prems(2) have rest: "\<forall>a. (a, None) \<in> set au \<longrightarrow> a \<in> set A" by auto
  show ?case
  proof (cases acc)
    case None
    with Cons.prems e have "a \<in> set A" by auto
    with Cons.prems(1) have "calls_guarded E A (tds\<lparr>tds_t := t_Delete (traced E) (tds_t tds) a (blockNr tds)\<rparr>)"
      by (simp add: traced_def)
    from Cons.IH[OF this rest] e None show ?thesis by simp
  next
    case (Some p)
    from Cons.prems(1) have "calls_guarded E A (tds\<lparr>tds_t := t_UpdateAccount (traced E) (tds_t tds) a (accHeap tds p)\<rparr>)"
      by (simp add: traced_def)
    from Cons.IH[OF this rest] e Some show ?thesis by simp
  qed
qed

lemma deleted_loop_inv:
  "calls_guarded E A tds \<Longrightarrow> calls_guarded E A (deleted_loop (traced E) b aU ds tds)"
proof (induction ds arbitrary: tds)
  case Nil
  then show ?case by simp
next
  case (Cons d ds)
  show ?case
  proof (cases "d \<in> set (created b)")
    case True
    with Cons show ?thesis by simp
  next
    case False
    let ?t = "tds\<lparr>tds_t := t_DeleteSubtree (traced E) (tds_t tds) d (blockNr tds),
                 accHeap := on_account aU d (\<lambda>account. account\<lparr>Root := EmptyRoot (traced E)\<rparr>)
                   (on_account (accountUpdates b) d (\<lambda>account. account\<lparr>Root := EmptyRoot (traced E)\<rparr>) (accHeap tds))\<rparr>"
    from Cons.prems have "calls_guarded E A ?t" by (simp add: traced_def)
    from Cons.IH[OF this] False show ?thesis by (simp add: Let_def)
  qed
qed

lemma created_loop_inv:
  "created_loop (traced E) b aU cs (ac, tds) = Return (e, ac', tds') \<Longrightarrow> calls_guarded E A tds \<Longrightarrow> calls_guarded E A tds'"
proof (induction cs arbitrary: ac tds)
  case Nil
  then show ?case by simp
next
  case (Cons c cs)
  show ?case
  proof (cases "c \<in> set ac")
    case True
    with Cons show ?thesis by simp
  next
    case False
    show ?thesis
    proof (cases "nextIncarnation (traced E) c tds")
      case Panic
      with Cons.prems False show ?thesis by simp
    next
      case (Return r)
      obtain inc err where r: "r = (inc, err)" by (cases r)
      show ?thesis
      proof (cases err)
        case (Some x)
        with Cons.prems False Return r show ?thesis by auto
      next
        case None
        let ?t = "tds\<lparr>tds_t := t_DeleteSubtree (traced E) (tds_t tds) c (blockNr tds),
                 accHeap := on_account aU c (\<lambda>account. account\<lparr>Incarnation := inc, Root := EmptyRoot (traced E)\<rparr>)
                   (on_account (accountUpdates b) c (\<lambda>account. account\<lparr>Incarnation := inc, Root := EmptyRoot (traced E)\<rparr>) (accHeap tds))\<rparr>"
        from Cons.prems(2) have i: "calls_guarded E A ?t" by (simp add: traced_def)
        from Cons.prems(1) False Return r None
        have "created_loop (traced E) b aU cs (List.insert c ac, ?t) = Return (e, ac', tds')"
          by (simp add: Let_def)
        from Cons.IH[OF this i] show ?thesis .
      qed
    qed
  qed
qed

lemma nil_accounts_mem: "(a, None) \<in> set (accountUpdates b) \<Longrightarrow> a \<in> set (nil_accounts b)"
  by (force simp: nil_accounts_def)

lemma buffer_step_inv:
  assumes "buffer_step (traced E) False aU b (ac, roots, tds) = Return (e, ac', roots', tds')"
    and "calls_guarded E A tds" and "set (nil_accounts b) \<subseteq> set A"
  shows "calls_guarded E A tds'"
proof (cases "created_loop (traced E) b aU (created b) (ac, tds)")
  case Panic
  with assms(1) show ?thesis by (simp add: buffer_step_def andThen_def)
next
  case (Return r)
  obtain e1 ac1 tds1 where r: "r = (e1, ac1, tds1)" by (cases r)
  from created_loop_inv[OF Return[unfolded r] assms(2)] have i1: "calls_guarded E A tds1" .
  show ?thesis
  proof (cases e1)
    case (Some x)
    with assms(1) Return r i1 show ?thesis by (auto simp: buffer_step_def andThen_def)
  next
    case None
    let ?t2 = "accountUpdates_loop (traced E) (accountUpdates b) tds1"
    from assms(3) have "\<forall>a. (a, None) \<in> set (accountUpdates b) \<longrightarrow> a \<in> set A"
      using nil_accounts_mem by blast
    from accountUpdates_loop_inv[OF i1 this] have i2: "calls_guarded E A ?t2" .
    obtain e3 t3 where s: "storageUpdates_loop (traced E) False b aU (storageUpdates b) ?t2 = (e3, t3)"
      by (cases "storageUpdates_loop (traced E) False b aU (storageUpdates b) ?t2")
    from storageUpdates_loop_inv[OF i2, of b aU "storageUpdates b"] s have i3: "calls_guarded E A t3" by simp
    show ?thesis
    proof (cases e3)
      case (Some x)
      with assms(1) Return r None s i3 show ?thesis by (auto simp: buffer_step_def andThen_def)
    next
      case None3: None
      from deleted_loop_inv[OF i3] have "calls_guarded E A (deleted_loop (traced E) b aU (deleted b) t3)" .
      with assms(1) Return r None s None3 show ?thesis
        by (auto simp: buffer_step_def andThen_def Let_def)
    qed
  qed
qed

lemma buffers_loop_inv:
  "buffers_loop (traced E) False aU bs (ac, roots, tds) = Return (e, ac', roots', tds') \<Longrightarrow>
   calls_guarded E A tds \<Longrightarrow> set (concat (map nil_accounts bs)) \<subseteq> set A \<Longrightarrow> calls_guarded E A tds'"
proof (induction bs arbitrary: ac roots tds)
  case Nil
  then show ?case by simp
next
  case (Cons b bs)
  show ?case
  proof (cases "buffer_step (traced E) False aU b (ac, roots, tds)")
    case Panic
    with Cons.prems(1) show ?thesis by (simp add: andThen_def)
  next
    case (Return r)
    obtain e1 ac1 roots1 tds1 where r: "r = (e1, ac1, roots1, tds1)" by (cases r)
    from Cons.prems(3) have sub: "set (nil_accounts b) \<subseteq> set A"
      and rest: "set (concat (map nil_accounts bs)) \<subseteq> set A" by auto
    from buffer_step_inv[OF Return[unfolded r] Cons.prems(2) sub] have i1: "calls_guarded E A tds1" .
    show ?thesis
    proof (cases e1)
      case (Some x)
      with Cons.prems(1) Return r i1 show ?thesis by (auto simp: andThen_def)
    next
      case None
      with Cons.prems(1) Return r
      have "buffers_loop (traced E) False aU bs (ac1, roots1, tds1) = Return (e, ac', roots', tds')"
        by (simp add: andThen_def)
      from Cons.IH[OF this i1 rest] show ?thesis .
    qed
  qed
qed

lemma updateTrieRoots_traced:
  assumes "updateTrieRoots (traced E) False tds = Return (res, tds')"
    and "snd (tds_t tds) = []"
  shows "list_all (guarded E (concat (map nil_accounts (map (bufHeap tds) (buffers tds)))))
           (snd (tds_t tds'))"
proof -
  let ?A = "concat (map nil_accounts (map (bufHeap tds) (buffers tds)))"
  from assms(1) obtain q where q: "aggregateBuffer tds = Some q"
    by (cases "aggregateBuffer tds") (auto simp: updateTrieRoots_def)
  from assms(1) q obtain e ac roots where
    "buffers_loop (traced E) False (accountUpdates (bufHeap tds q)) (map (bufHeap tds) (buffers tds))
       ([], [], tds) = Return (e, ac, roots, tds')"
    by (auto simp: updateTrieRoots_def split: outcome.splits option.splits)
  from buffers_loop_inv[OF this, of ?A] assms(2) show ?thesis by simp
qed

lemma untraced_simps [simp]:
  "tds_t (untraced tds) = fst (tds_t tds)"
  "tds_db (untraced tds) = tds_db tds"
  "blockNr (untraced tds) = blockNr tds"
  "buffers (untraced tds) = buffers tds"
  "aggregateBuffer (untraced tds) = aggregateBuffer tds"
  "historical (untraced tds) = historical tds"
  "bufHeap (untraced tds) = bufHeap tds"
  "accHeap (untraced tds) = accHeap tds"
  by (simp_all add: untraced_def)

lemma untraced_update:
  "untraced (tds\<lparr>tds_t := tlog\<rparr>) = (untraced tds)\<lparr>tds_t := fst tlog\<rparr>"
  "untraced (tds\<lparr>accHeap := h\<rparr>) = (untraced tds)\<lparr>accHeap := h\<rparr>"
  "untraced (tds\<lparr>tds_t := tlog, accHeap := h\<rparr>) = (untraced tds)\<lparr>tds_t := fst tlog, accHeap := h\<rparr>"
  by (simp_all add: untraced_def)

lemma traced_simps [simp]:
  "EmptyRoot (traced E) = EmptyRoot E"
  "t_Get (traced E) tlog = t_Get E (fst tlog)"
  "t_DeepHash (traced E) tlog = t_DeepHash E (fst tlog)"
  "t_Hash (traced E) tlog = t_Hash E (fst tlog)"
  "fst (t_Update (traced E) tlog k v n) = t_Update E (fst tlog) k v n"
  "fst (t_Delete (traced E) tlog k n) = t_Delete E (fst tlog) k n"
  "fst (t_DeleteSubtree (traced E) tlog k n) = t_DeleteSubtree E (fst tlog) k n"
  "fst (t_UpdateAccount (traced E) tlog k a) = t_UpdateAccount E (fst tlog) k a"
  "db_Walk (traced E) = db_Walk E"
  "db_WalkAsOf (traced E) = db_WalkAsOf E"
  by (simp_all add: traced_def)

lemma nextIncarnation_traced:
  "nextIncarnation (traced E) a tds = nextIncarnation E a (untraced tds)"
  by (simp add: nextIncarnation_def storage_range_def)

lemma created_loop_traced:
  "created_loop E b aU cs (ac, untraced tds) =
     (case created_loop (traced E) b aU cs (ac, tds) of
        Panic \<Rightarrow> Panic
      | Return (e, ac', tds') \<Rightarrow> Return (e, ac', untraced tds'))"
proof (induction cs arbitrary: ac tds)
  case Nil
  then show ?case by simp
next
  case (Cons c cs)
  show ?case
  proof (cases "c \<in> set ac")
    case True
    with Cons show ?thesis by simp
  next
    case False
    show ?thesis
    proof (cases "nextIncarnation E c (untraced tds)")
      case Panic
      with False show ?thesis by (simp add: nextIncarnation_traced)
    next
      case (Return r)
      obtain inc err where r: "r = (inc, err)" by (cases r)
      show ?thesis
      proof (cases err)
        case (Some x)
        with False Return r show ?thesis by (simp add: nextIncarnation_traced)
      next
        case None
        let ?t = "tds\<lparr>tds_t := t_DeleteSubtree (traced E) (tds_t tds) c (blockNr tds),
                 accHeap := on_account aU c (\<lambda>account. account\<lparr>Incarnation := inc, Root := EmptyRoot E\<rparr>)
                   (on_account (accountUpdates b) c (\<lambda>account. account\<lparr>Incarnation := inc, Root := EmptyRoot E\<rparr>) (accHeap tds))\<rparr>"
        from Cons.IH[of "List.insert c ac" ?t] False Return r None
        show ?thesis
          by (simp add: nextIncarnation_traced Let_def untraced_update)
      qed
    qed
  qed
qed

lemma accountUpdates_loop_traced:
  "untraced (accountUpdates_loop (traced E) au tds) = accountUpdates_loop E au (untraced tds)"
proof (induction au arbitrary: tds)
  case Nil
  then show ?case by simp
next
  case (Cons e au)
  obtain a acc where e: "e = (a, acc)" by (cases e)
  show ?case using Cons.IH e by (cases acc) (simp_all add: untraced_update)
qed

lemma storage_item_traced:
  "untraced (storage_item (traced E) f a kv tds) = storage_item E f a kv (untraced tds)"
  by (cases kv) (simp add: storage_item_def Let_def untraced_update)

lemma storage_items_traced:
  "untraced (storage_items (traced E) f a m tds) = storage_items E f a m (untraced tds)"
  by (induction m arbitrary: tds) (simp_all add: storage_item_traced)

lemma deep_root_traced: "deep_root (traced E) tlog a = deep_root E (fst tlog) a"
  by (simp add: deep_root_def split: prod.splits)

lemma check_root_traced:
  "check_root (traced E) m a tds = check_root E m a (untraced tds)"
  by (simp add: check_root_def deep_root_traced Let_def split: option.splits)

lemma storage_root_traced:
  "storage_root E f b aU a (untraced tds) =
     (case storage_root (traced E) f b aU a tds of (e, tds') \<Rightarrow> (e, untraced tds'))"
  by (auto simp: storage_root_def check_root_traced deep_root_traced Let_def untraced_update
      split: option.splits)

lemma storageUpdates_loop_traced:
  "storageUpdates_loop E f b aU su (untraced tds) =
     (case storageUpdates_loop (traced E) f b aU su tds of (e, tds') \<Rightarrow> (e, untraced tds'))"
proof (induction su arbitrary: tds)
  case Nil
  then show ?case by simp
next
  case (Cons e su)
  obtain a m where e: "e = (a, m)" by (cases e)
  let ?t1 = "storage_items (traced E) f a m tds"
  obtain r t2 where sr: "storage_root (traced E) f b aU a ?t1 = (r, t2)"
    by (cases "storage_root (traced E) f b aU a ?t1")
  with storage_root_traced[of E f b aU a ?t1]
  have sr': "storage_root E f b aU a (storage_items E f a m (untraced tds)) = (r, untraced t2)"
    by (simp add: storage_items_traced)
  show ?case using Cons.IH[of t2] e sr sr' by (cases r) simp_all
qed

lemma deleted_loop_traced:
  "untraced (deleted_loop (traced E) b aU ds tds) = deleted_loop E b aU ds (untraced tds)"
proof (induction ds arbitrary: tds)
  case Nil
  then show ?case by simp
next
  case (Cons d ds)
  show ?case using Cons.IH by (simp add: Let_def untraced_update)
qed

lemma buffer_step_traced:
  "buffer_step E f aU b (ac, roots, untraced tds) =
     (case buffer_step (traced E) f aU b (ac, roots, tds) of
        Panic \<Rightarrow> Panic
      | Return (e, ac', roots', tds') \<Rightarrow> Return (e, ac', roots', untraced tds'))"
proof (cases "created_loop (traced E) b aU (created b) (ac, tds)")
  case Panic
  with created_loop_traced[of E b aU "created b" ac tds] show ?thesis
    by (simp add: buffer_step_def andThen_def)
next
  case (Return r)
  obtain e1 ac1 tds1 where r: "r = (e1, ac1, tds1)" by (cases r)
  from created_loop_traced[of E b aU "created b" ac tds] Return r
  have c: "created_loop E b aU (created b) (ac, untraced tds) = Return (e1, ac1, untraced tds1)"
    by simp
  show ?thesis
  proof (cases e1)
    case (Some x)
    with c Return r show ?thesis by (simp add: buffer_step_def andThen_def)
  next
    case None
    let ?t2 = "accountUpdates_loop (traced E) (accountUpdates b) tds1"
    obtain e3 t3 where s: "storageUpdates_loop (traced E) f b aU (storageUpdates b) ?t2 = (e3, t3)"
      by (cases "storageUpdates_loop (traced E) f b aU (storageUpdates b) ?t2")
    with storageUpdates_loop_traced[of E f b aU "storageUpdates b" ?t2]
    have s': "storageUpdates_loop E f b aU (storageUpdates b)
                (accountUpdates_loop E (accountUpdates b) (untraced tds1)) = (e3, untraced t3)"
      by (simp add: accountUpdates_loop_traced)
    have h: "tds_t (deleted_loop E b aU (deleted b) (untraced t3)) =
               fst (tds_t (deleted_loop (traced E) b aU (deleted b) t3))"
      by (simp add: deleted_loop_traced[symmetric])
    show ?thesis using c Return r None s s' h
      by (cases e3) (simp_all add: buffer_step_def andThen_def Let_def deleted_loop_traced)
  qed
qed

lemma buffers_loop_traced:
  "buffers_loop E f aU bs (ac, roots, untraced tds) =
     (case buffers_loop (traced E) f aU bs (ac, roots, tds) of
        Panic \<Rightarrow> Panic
      | Return (e, ac', roots', tds') \<Rightarrow> Return (e, ac', roots', untraced tds'))"
proof (induction bs arbitrary: ac roots tds)
  case Nil
  then show ?case by simp
next
  case (Cons b bs)
  show ?case
  proof (cases "buffer_step (traced E) f aU b (ac, roots, tds)")
    case Panic
    with buffer_step_traced[of E f aU b ac roots tds] show ?thesis by (simp add: andThen_def)
  next
    case (Return r)
    obtain e1 ac1 roots1 tds1 where r: "r = (e1, ac1, roots1, tds1)" by (cases r)
    with buffer_step_traced[of E f aU b ac roots tds] Return
    have c: "buffer_step E f aU b (ac, roots, untraced tds) = Return (e1, ac1, roots1, untraced tds1)"
      by simp
    show ?thesis using c Return r Cons.IH[of ac1 roots1 tds1]
      by (cases e1) (simp_all add: andThen_def)
  qed
qed

lemma updateTrieRoots_traced_same:
  "updateTrieRoots E f (untraced tds) =
     (case updateTrieRoots (traced E) f tds of
        Panic \<Rightarrow> Panic
      | Return (res, tds') \<Rightarrow> Return (res, untraced tds'))"
proof (cases "aggregateBuffer tds")
  case None
  then show ?thesis by (simp add: updateTrieRoots_def)
next
  case (Some q)
  have m: "map (bufHeap (untraced tds)) (buffers (untraced tds)) = map (bufHeap tds) (buffers tds)"
    by simp
  show ?thesis
    using buffers_loop_traced[of E f "accountUpdates (bufHeap tds q)" "map (bufHeap tds) (buffers tds)" "[]" "[]" tds]
      Some
    by (auto simp: updateTrieRoots_def split: outcome.splits option.splits)
qed

lemma check_root_None:
  "check_root E m a tds = None \<longleftrightarrow>
     (\<forall>p. map_of m a = Some (Some p) \<longrightarrow> Root (accHeap tds p) = deep_root E (tds_t tds) a)"
  by (auto simp: check_root_def Let_def split: option.splits)

lemma check_root_Some:
  "check_root E m a tds = Some e \<Longrightarrow>
     \<exists>p. map_of m a = Some (Some p) \<and> Root (accHeap tds p) \<noteq> deep_root E (tds_t tds) a \<and>
         e = MismatchedStorageRoot a (Root (accHeap tds p)) (deep_root E (tds_t tds) a)"
  by (auto simp: check_root_def Let_def split: option.splits if_splits)

lemma storage_root_rewind:
  "snd (storage_root E False b aU a tds) = tds"
  "fst (storage_root E False b aU a tds) = None \<longleftrightarrow>
     (\<forall>p. map_of (accountUpdates b) a = Some (Some p) \<or> map_of aU a = Some (Some p) \<longrightarrow>
          Root (accHeap tds p) = deep_root E (tds_t tds) a)"
proof -
  show "snd (storage_root E False b aU a tds) = tds"
    by (auto simp: storage_root_def split: option.splits)
  show "fst (storage_root E False b aU a tds) = None \<longleftrightarrow>
     (\<forall>p. map_of (accountUpdates b) a = Some (Some p) \<or> map_of aU a = Some (Some p) \<longrightarrow>
          Root (accHeap tds p) = deep_root E (tds_t tds) a)"
    using check_root_None[of E "accountUpdates b" a tds] check_root_None[of E aU a tds]
    by (auto simp: storage_root_def split: option.splits)
qed

lemma storage_root_mismatch:
  assumes "map_of (accountUpdates b) a = Some (Some p) \<or> map_of aU a = Some (Some p)"
    and "Root (accHeap tds p) \<noteq> deep_root E (tds_t tds) a"
  shows "\<exists>p'. storage_root E False b aU a tds =
           (Some (MismatchedStorageRoot a (Root (accHeap tds p')) (deep_root E (tds_t tds) a)), tds)"
proof (cases "check_root E (accountUpdates b) a tds")
  case (Some e)
  from check_root_Some[OF Some] show ?thesis by (auto simp: storage_root_def Some)
next
  case None
  with assms check_root_None[of E "accountUpdates b" a tds]
  have n: "map_of aU a = Some (Some p)" by auto
  with assms(2) check_root_None[of E aU a tds] obtain e where e: "check_root E aU a tds = Some e"
    by (cases "check_root E aU a tds") auto
  from check_root_Some[OF e] show ?thesis by (auto simp: storage_root_def None e)
qed

lemma storageUpdates_loop_append:
  "storageUpdates_loop E f b aU (xs @ ys) tds =
     (case storageUpdates_loop E f b aU xs tds of
        (Some err, tds') \<Rightarrow> (Some err, tds')
      | (None, tds') \<Rightarrow> storageUpdates_loop E f b aU ys tds')"
proof (induction xs arbitrary: tds)
  case Nil
  then show ?case by simp
next
  case (Cons x xs)
  obtain a m where x: "x = (a, m)" by (cases x)
  show ?case using Cons.IH x by (auto split: prod.splits option.splits)
qed

lemma buffers_loop_append:
  "buffers_loop E f aU (xs @ ys) st =
     andThen (buffers_loop E f aU xs st) (buffers_loop E f aU ys) (\<lambda>st'. st')"
proof (induction xs arbitrary: st)
  case Nil
  then show ?case by (simp add: andThen_def)
next
  case (Cons x xs)
  show ?case using Cons.IH
    by (auto simp: andThen_def split: outcome.splits prod.splits option.splits)
qed

lemma rewind_mismatch:
  assumes agg: "aggregateBuffer tds = Some q"
    and bs: "map (bufHeap tds) (buffers tds) = bs1 @ b # bs2"
    and pre: "buffers_loop E False (accountUpdates (bufHeap tds q)) bs1 ([], [], tds)
                = Return (None, ac1, roots1, tds1)"
    and cr: "created_loop E b (accountUpdates (bufHeap tds q)) (created b) (ac1, tds1)
                = Return (None, ac2, tds2)"
    and su: "storageUpdates b = su1 @ (a, m) # su2"
    and sl: "storageUpdates_loop E False b (accountUpdates (bufHeap tds q)) su1
               (accountUpdates_loop E (accountUpdates b) tds2) = (None, tds3)"
    and p: "map_of (accountUpdates b) a = Some (Some p)
            \<or> map_of (accountUpdates (bufHeap tds q)) a = Some (Some p)"
    and ne: "Root (accHeap (storage_items E False a m tds3) p)
               \<noteq> deep_root E (tds_t (storage_items E False a m tds3)) a"
  shows "\<exists>p'. updateTrieRoots E False tds =
           Return ((None, Some (MismatchedStorageRoot a
                      (Root (accHeap (storage_items E False a m tds3) p'))
                      (deep_root E (tds_t (storage_items E False a m tds3)) a))),
                   storage_items E False a m tds3)"
proof -
  let ?aU = "accountUpdates (bufHeap tds q)"
  let ?t4 = "storage_items E False a m tds3"
  from storage_root_mismatch[OF p ne] obtain p' where
    sr: "storage_root E False b ?aU a ?t4 =
           (Some (MismatchedStorageRoot a (Root (accHeap ?t4 p')) (deep_root E (tds_t ?t4) a)), ?t4)"
    by blast
  let ?e = "MismatchedStorageRoot a (Root (accHeap ?t4 p')) (deep_root E (tds_t ?t4) a)"
  have loop: "storageUpdates_loop E False b ?aU (storageUpdates b)
                (accountUpdates_loop E (accountUpdates b) tds2) = (Some ?e, ?t4)"
    by (simp add: su storageUpdates_loop_append sl sr)
  have step: "buffer_step E False ?aU b (ac1, roots1, tds1) = Return (Some ?e, ac2, roots1, ?t4)"
    by (simp add: buffer_step_def andThen_def cr loop)
  have "buffers_loop E False ?aU (bs1 @ b # bs2) ([], [], tds) = Return (Some ?e, ac2, roots1, ?t4)"
    by (simp add: buffers_loop_append pre andThen_def step)
  then have "updateTrieRoots E False tds = Return ((None, Some ?e), ?t4)"
    by (simp add: updateTrieRoots_def agg bs)
  then show ?thesis by blast
qed

lemma deep_root_eq:
  "deep_root E t a = (if fst (t_DeepHash E t a) then snd (t_DeepHash E t a) else EmptyRoot E)"
  by (simp add: deep_root_def split: prod.splits)

text \<open>
  Claim C4. With \<^verbatim>\<open>forward = false\<close>:
  \<^item> the replay of a storage entry is the forward replay when \<^verbatim>\<open>Get\<close> finds the composite
    key in the trie, and does nothing otherwise;
  \<^item> in a whole run of \<^verbatim>\<open>updateTrieRoots\<close> that returns, started with an empty record of
    calls, the recorded run returns what the plain run returns, and every recorded
    \<^verbatim>\<open>Update\<close> and \<^verbatim>\<open>Delete\<close> was made on a key that \<^verbatim>\<open>Get\<close> found, except the \<^verbatim>\<open>Delete\<close>
    of an account whose pending update is \<^verbatim>\<open>nil\<close>;
  \<^item> the step after the storage writes of an address leaves trie and accounts as they
    are, and it is without error exactly when the root of every pending account record of
    the address is the recomputed storage root: the hash that \<^verbatim>\<open>DeepHash\<close> returns for the
    address when it finds one, and the empty root otherwise;
  \<^item> when the replay reaches that step for an address \<open>a\<close> with a pending account whose
    root differs from the recomputed one, \<^verbatim>\<open>updateTrieRoots\<close> returns a mismatch error
    for \<open>a\<close> that carries both roots, in the state reached by then.
\<close>

theorem updateTrieRoots_rewind:
  "(\<forall>a k v tds.
      storage_item E False a (k, v) tds =
        (if snd (t_Get E (tds_t tds) (GenerateCompositeTrieKey a k))
         then storage_item E True a (k, v) tds else tds))
   \<and> (\<forall>tds res tds'.
        updateTrieRoots (traced E) False tds = Return (res, tds') \<and> snd (tds_t tds) = [] \<longrightarrow>
        updateTrieRoots E False (untraced tds) = Return (res, untraced tds') \<and>
        calls_guarded E (concat (map nil_accounts (map (bufHeap tds) (buffers tds)))) tds')
   \<and> (\<forall>b aU a tds.
        snd (storage_root E False b aU a tds) = tds \<and>
        (fst (storage_root E False b aU a tds) = None \<longleftrightarrow>
           (\<forall>p. map_of (accountUpdates b) a = Some (Some p) \<or> map_of aU a = Some (Some p) \<longrightarrow>
                Root (accHeap tds p) =
                  (if fst (t_DeepHash E (tds_t tds) a) then snd (t_DeepHash E (tds_t tds) a)
                   else EmptyRoot E))))
   \<and> (\<forall>tds q bs1 b bs2 ac1 roots1 tds1 ac2 tds2 su1 a m su2 tds3 p.
        aggregateBuffer tds = Some q \<and>
        map (bufHeap tds) (buffers tds) = bs1 @ b # bs2 \<and>
        buffers_loop E False (accountUpdates (bufHeap tds q)) bs1 ([], [], tds)
          = Return (None, ac1, roots1, tds1) \<and>
        created_loop E b (accountUpdates (bufHeap tds q)) (created b) (ac1, tds1)
          = Return (None, ac2, tds2) \<and>
        storageUpdates b = su1 @ (a, m) # su2 \<and>
        storageUpdates_loop E False b (accountUpdates (bufHeap tds q)) su1
          (accountUpdates_loop E (accountUpdates b) tds2) = (None, tds3) \<and>
        (map_of (accountUpdates b) a = Some (Some p)
           \<or> map_of (accountUpdates (bufHeap tds q)) a = Some (Some p)) \<and>
        Root (accHeap (storage_items E False a m tds3) p)
          \<noteq> (if fst (t_DeepHash E (tds_t (storage_items E False a m tds3)) a)
              then snd (t_DeepHash E (tds_t (storage_items E False a m tds3)) a)
              else EmptyRoot E)
        \<longrightarrow>
        (\<exists>p'. updateTrieRoots E False tds =
           Return ((None, Some (MismatchedStorageRoot a
                      (Root (accHeap (storage_items E False a m tds3) p'))
                      (if fst (t_DeepHash E (tds_t (storage_items E False a m tds3)) a)
                       then snd (t_DeepHash E (tds_t (storage_items E False a m tds3)) a)
                       else EmptyRoot E))),
                   storage_items E False a m tds3)))"
  unfolding deep_root_eq[symmetric]
proof (intro conjI allI impI)
  fix a k v and tds :: "('a, 'b) TrieDbState"
  show "storage_item E False a (k, v) tds =
        (if snd (t_Get E (tds_t tds) (GenerateCompositeTrieKey a k))
         then storage_item E True a (k, v) tds else tds)"
    by (rule storage_item_rewind)
next
  fix tds :: "('a \<times> 'a call list, 'b) TrieDbState" and res tds'
  assume h: "updateTrieRoots (traced E) False tds = Return (res, tds') \<and> snd (tds_t tds) = []"
  from updateTrieRoots_traced_same[of E False tds] h
  show "updateTrieRoots E False (untraced tds) = Return (res, untraced tds')"
    by simp
next
  fix tds :: "('a \<times> 'a call list, 'b) TrieDbState" and res tds'
  assume h: "updateTrieRoots (traced E) False tds = Return (res, tds') \<and> snd (tds_t tds) = []"
  then show "calls_guarded E (concat (map nil_accounts (map (bufHeap tds) (buffers tds)))) tds'"
    using updateTrieRoots_traced by blast
next
  fix b aU a and tds :: "('a, 'b) TrieDbState"
  show "snd (storage_root E False b aU a tds) = tds"
    by (rule storage_root_rewind)
next
  fix b aU a and tds :: "('a, 'b) TrieDbState"
  show "(fst (storage_root E False b aU a tds) = None) =
         (\<forall>p. map_of (accountUpdates b) a = Some (Some p) \<or> map_of aU a = Some (Some p) \<longrightarrow>
                Root (accHeap tds p) = deep_root E (tds_t tds) a)"
    by (rule storage_root_rewind)
next
  fix tds :: "('a, 'b) TrieDbState" and q bs1 b bs2 ac1 roots1 tds1 ac2 tds2 su1 a m su2 tds3 p
  assume h: "aggregateBuffer tds = Some q \<and>
        map (bufHeap tds) (buffers tds) = bs1 @ b # bs2 \<and>
        buffers_loop E False (accountUpdates (bufHeap tds q)) bs1 ([], [], tds)
          = Return (None, ac1, roots1, tds1) \<and>
        created_loop E b (accountUpdates (bufHeap tds q)) (created b) (ac1, tds1)
          = Return (None, ac2, tds2) \<and>
        storageUpdates b = su1 @ (a, m) # su2 \<and>
        storageUpdates_loop E False b (accountUpdates (bufHeap tds q)) su1
          (accountUpdates_loop E (accountUpdates b) tds2) = (None, tds3) \<and>
        (map_of (accountUpdates b) a = Some (Some p)
           \<or> map_of (accountUpdates (bufHeap tds q)) a = Some (Some p)) \<and>
        Root (accHeap (storage_items E False a m tds3) p)
          \<noteq> deep_root E (tds_t (storage_items E False a m tds3)) a"
  then show "\<exists>p'. updateTrieRoots E False tds =
           Return ((None, Some (MismatchedStorageRoot a
                      (Root (accHeap (storage_items E False a m tds3) p'))
                      (deep_root E (tds_t (storage_items E False a m tds3)) a))),
                   storage_items E False a m tds3)"
    using rewind_mismatch[of tds q bs1 b bs2 E ac1 roots1 tds1 ac2 tds2 su1 a m su2 tds3 p]
    by blast
qed


lemma found_run:
  "updateTrieRoots (traced deep_env) False found_tds =
     Return ((Some [[6, 6]], None),
       found_tds\<lparr>tds_t := ([([1, 2], [6]), ([1], [6])],
          [CallUpdateAccount [([1, 2], [5])] [1] (sample_account\<lparr>Root := [6]\<rparr>),
           CallDelete [([1, 2], [5]), ([1], [6])] [8],
           CallUpdate [([1, 2], [5]), ([1], [6])] [1, 2] [6]])\<rparr>)"
  by (simp add: updateTrieRoots_def found_tds_def rewind_buffer_def initialise_def
      andThen_def buffer_step_def storage_item_def storage_root_def check_root_def deep_root_def
      GenerateCompositeTrieKey_def traced_def deep_env_def sample_env_def sample_account_def Let_def)

theorem updateTrieRoots_rewind_witness:
  "updateTrieRoots (traced deep_env) False found_tds =
     Return ((Some [[6, 6]], None),
       found_tds\<lparr>tds_t := ([([1, 2], [6]), ([1], [6])],
          [CallUpdateAccount [([1, 2], [5])] [1] (sample_account\<lparr>Root := [6]\<rparr>),
           CallDelete [([1, 2], [5]), ([1], [6])] [8],
           CallUpdate [([1, 2], [5]), ([1], [6])] [1, 2] [6]])\<rparr>)
   \<and> snd (tds_t found_tds) = []
   \<and> t_DeepHash deep_env [([1, 2], [6]), ([1], [6])] [1] = (True, [6])
   \<and> updateTrieRoots deep_env False (untraced found_tds) =
       Return ((Some [[6, 6]], None),
         untraced (found_tds\<lparr>tds_t := ([([1, 2], [6]), ([1], [6])],
          [CallUpdateAccount [([1, 2], [5])] [1] (sample_account\<lparr>Root := [6]\<rparr>),
           CallDelete [([1, 2], [5]), ([1], [6])] [8],
           CallUpdate [([1, 2], [5]), ([1], [6])] [1, 2] [6]])\<rparr>))
   \<and> calls_guarded deep_env (concat (map nil_accounts (map (bufHeap found_tds) (buffers found_tds))))
       (found_tds\<lparr>tds_t := ([([1, 2], [6]), ([1], [6])],
          [CallUpdateAccount [([1, 2], [5])] [1] (sample_account\<lparr>Root := [6]\<rparr>),
           CallDelete [([1, 2], [5]), ([1], [6])] [8],
           CallUpdate [([1, 2], [5]), ([1], [6])] [1, 2] [6]])\<rparr>)
   \<and> aggregateBuffer mismatch_tds = Some 1
   \<and> map (bufHeap mismatch_tds) (buffers mismatch_tds) = [] @ rewind_buffer # []
   \<and> storageUpdates rewind_buffer = [] @ ([1], [([2], Some [6]), ([3], Some [7])]) # []
   \<and> map_of (accountUpdates rewind_buffer) [1] = Some (Some 4)
   \<and> Root (accHeap (storage_items deep_env False [1] [([2], Some [6]), ([3], Some [7])]
              (accountUpdates_loop deep_env (accountUpdates rewind_buffer) mismatch_tds)) 4) = [7]
   \<and> t_DeepHash deep_env (tds_t (storage_items deep_env False [1] [([2], Some [6]), ([3], Some [7])]
              (accountUpdates_loop deep_env (accountUpdates rewind_buffer) mismatch_tds))) [1]
        = (True, [6])
   \<and> updateTrieRoots deep_env False mismatch_tds =
       Return ((None, Some (MismatchedStorageRoot [1] [7] [6])),
         mismatch_tds\<lparr>tds_t := [([1, 2], [6]), ([1], [7])]\<rparr>)
   \<and> Root (accHeap (storage_items sample_env False [1] [([2], Some [6]), ([3], Some [7])]
              (accountUpdates_loop sample_env (accountUpdates rewind_buffer) mismatch_tds)) 4) = [7]
   \<and> t_DeepHash sample_env (tds_t (storage_items sample_env False [1] [([2], Some [6]), ([3], Some [7])]
              (accountUpdates_loop sample_env (accountUpdates rewind_buffer) mismatch_tds))) [1]
        = (False, [])
   \<and> EmptyRoot sample_env = []
   \<and> updateTrieRoots sample_env False mismatch_tds =
       Return ((None, Some (MismatchedStorageRoot [1] [7] [])),
         mismatch_tds\<lparr>tds_t := [([1, 2], [6]), ([1], [7])]\<rparr>)"
proof -
  note inst = updateTrieRoots_rewind[where E = deep_env]
  note inst0 = updateTrieRoots_rewind[where E = sample_env]
  have l: "snd (tds_t found_tds) = []" by (simp add: found_tds_def)
  have dh: "t_DeepHash deep_env [([1, 2], [6]), ([1], [6])] [1] = (True, [6])"
    by (simp add: deep_env_def sample_env_def)
  note recorded = inst[THEN conjunct2, THEN conjunct1, rule_format, OF conjI, OF found_run l]
  from recorded
  have plain: "updateTrieRoots deep_env False (untraced found_tds) =
       Return ((Some [[6, 6]], None),
         untraced (found_tds\<lparr>tds_t := ([([1, 2], [6]), ([1], [6])],
          [CallUpdateAccount [([1, 2], [5])] [1] (sample_account\<lparr>Root := [6]\<rparr>),
           CallDelete [([1, 2], [5]), ([1], [6])] [8],
           CallUpdate [([1, 2], [5]), ([1], [6])] [1, 2] [6]])\<rparr>))"
    by blast
  from recorded
  have g: "calls_guarded deep_env (concat (map nil_accounts (map (bufHeap found_tds) (buffers found_tds))))
       (found_tds\<lparr>tds_t := ([([1, 2], [6]), ([1], [6])],
          [CallUpdateAccount [([1, 2], [5])] [1] (sample_account\<lparr>Root := [6]\<rparr>),
           CallDelete [([1, 2], [5]), ([1], [6])] [8],
           CallUpdate [([1, 2], [5]), ([1], [6])] [1, 2] [6]])\<rparr>)"
    by blast
  let ?m = "[([2], Some [6]), ([3], Some [7])] :: (hash \<times> slice) list"
  have h1: "aggregateBuffer mismatch_tds = Some 1"
    by (simp add: mismatch_tds_def sample_tds_def)
  have h2: "map (bufHeap mismatch_tds) (buffers mismatch_tds) = [] @ rewind_buffer # []"
    by (simp add: mismatch_tds_def sample_tds_def)
  have h5: "storageUpdates rewind_buffer = [] @ ([1], ?m) # []"
    by (simp add: rewind_buffer_def initialise_def)
  have h7: "map_of (accountUpdates rewind_buffer) [1] = Some (Some 4)"
    by (simp add: rewind_buffer_def initialise_def)
  have tt: "tds_t (mismatch_tds\<lparr>tds_t := [([1, 2], [6]), ([1], [7])]\<rparr>) = [([1, 2], [6]), ([1], [7])]"
    by simp
  have e: "updateTrieRoots E False mismatch_tds =
             Return ((None, Some (MismatchedStorageRoot [1] [7] found)),
               mismatch_tds\<lparr>tds_t := [([1, 2], [6]), ([1], [7])]\<rparr>)
           \<and> Root (accHeap (storage_items E False [1] ?m
                (accountUpdates_loop E (accountUpdates rewind_buffer) mismatch_tds)) 4) = [7]"
    if fact: "\<forall>tds q bs1 b bs2 ac1 roots1 tds1 ac2 tds2 su1 a m su2 tds3 p.
        aggregateBuffer tds = Some q \<and>
        map (bufHeap tds) (buffers tds) = bs1 @ b # bs2 \<and>
        buffers_loop E False (accountUpdates (bufHeap tds q)) bs1 ([], [], tds)
          = Return (None, ac1, roots1, tds1) \<and>
        created_loop E b (accountUpdates (bufHeap tds q)) (created b) (ac1, tds1)
          = Return (None, ac2, tds2) \<and>
        storageUpdates b = su1 @ (a, m) # su2 \<and>
        storageUpdates_loop E False b (accountUpdates (bufHeap tds q)) su1
          (accountUpdates_loop E (accountUpdates b) tds2) = (None, tds3) \<and>
        (map_of (accountUpdates b) a = Some (Some p)
           \<or> map_of (accountUpdates (bufHeap tds q)) a = Some (Some p)) \<and>
        Root (accHeap (storage_items E False a m tds3) p)
          \<noteq> (if fst (t_DeepHash E (tds_t (storage_items E False a m tds3)) a)
              then snd (t_DeepHash E (tds_t (storage_items E False a m tds3)) a)
              else EmptyRoot E)
        \<longrightarrow>
        (\<exists>p'. updateTrieRoots E False tds =
           Return ((None, Some (MismatchedStorageRoot a
                      (Root (accHeap (storage_items E False a m tds3) p'))
                      (if fst (t_DeepHash E (tds_t (storage_items E False a m tds3)) a)
                       then snd (t_DeepHash E (tds_t (storage_items E False a m tds3)) a)
                       else EmptyRoot E))),
                   storage_items E False a m tds3))"
      and t4: "storage_items E False [1] ?m
                 (accountUpdates_loop E (accountUpdates rewind_buffer) mismatch_tds)
               = mismatch_tds\<lparr>tds_t := [([1, 2], [6]), ([1], [7])]\<rparr>"
      and d: "(if fst (t_DeepHash E [([1, 2], [6]), ([1], [7])] [1])
               then snd (t_DeepHash E [([1, 2], [6]), ([1], [7])] [1]) else EmptyRoot E) = found"
      and ne: "found \<noteq> [7]"
    for E :: "((bytes \<times> bytes) list, (bytes \<times> bytes) list) env" and found
  proof -
    let ?t2 = "accountUpdates_loop E (accountUpdates rewind_buffer) mismatch_tds"
    let ?t4 = "storage_items E False [1] ?m ?t2"
    have h3: "buffers_loop E False (accountUpdates (bufHeap mismatch_tds 1)) [] ([], [], mismatch_tds)
                = Return (None, [], [], mismatch_tds)"
      by simp
    have h4: "created_loop E rewind_buffer (accountUpdates (bufHeap mismatch_tds 1))
                (created rewind_buffer) ([], mismatch_tds) = Return (None, [], mismatch_tds)"
      by (simp add: rewind_buffer_def initialise_def)
    have h6: "storageUpdates_loop E False rewind_buffer (accountUpdates (bufHeap mismatch_tds 1)) []
                ?t2 = (None, ?t2)"
      by simp
    have r: "Root (accHeap ?t4 p) = [7]" for p
      by (subst t4) (simp add: mismatch_tds_def sample_tds_def sample_account_def)
    have dd: "(if fst (t_DeepHash E (tds_t ?t4) [1]) then snd (t_DeepHash E (tds_t ?t4) [1])
               else EmptyRoot E) = found"
      unfolding t4 tt by (rule d)
    have h8: "Root (accHeap ?t4 4) \<noteq> (if fst (t_DeepHash E (tds_t ?t4) [1])
                then snd (t_DeepHash E (tds_t ?t4) [1]) else EmptyRoot E)"
      unfolding r dd using ne by simp
    have "\<exists>p'. updateTrieRoots E False mismatch_tds =
             Return ((None, Some (MismatchedStorageRoot [1] (Root (accHeap ?t4 p'))
                        (if fst (t_DeepHash E (tds_t ?t4) [1]) then snd (t_DeepHash E (tds_t ?t4) [1])
                         else EmptyRoot E))), ?t4)"
      by (rule fact[rule_format,
            where q = 1 and ?bs1.0 = "[]" and b = rewind_buffer and ?bs2.0 = "[]"
              and ?ac1.0 = "[]" and ?roots1.0 = "[]" and ?tds1.0 = mismatch_tds
              and ?ac2.0 = "[]" and ?tds2.0 = mismatch_tds and ?su1.0 = "[]"
              and ?su2.0 = "[]" and p = 4])
        (intro conjI h1 h2 h3 h4 h5 h6 h7 h8 disjI1)
    then have "updateTrieRoots E False mismatch_tds =
         Return ((None, Some (MismatchedStorageRoot [1] [7] found)),
           mismatch_tds\<lparr>tds_t := [([1, 2], [6]), ([1], [7])]\<rparr>)"
      unfolding r dd by (subst (asm) t4) simp
    with r show ?thesis by simp
  qed
  have t4d: "storage_items deep_env False [1] ?m
               (accountUpdates_loop deep_env (accountUpdates rewind_buffer) mismatch_tds)
             = mismatch_tds\<lparr>tds_t := [([1, 2], [6]), ([1], [7])]\<rparr>"
    by (simp add: mismatch_tds_def rewind_buffer_def initialise_def sample_tds_def deep_env_def
        sample_env_def sample_account_def storage_item_def GenerateCompositeTrieKey_def Let_def)
  have t4s: "storage_items sample_env False [1] ?m
               (accountUpdates_loop sample_env (accountUpdates rewind_buffer) mismatch_tds)
             = mismatch_tds\<lparr>tds_t := [([1, 2], [6]), ([1], [7])]\<rparr>"
    by (simp add: mismatch_tds_def rewind_buffer_def initialise_def sample_tds_def
        sample_env_def sample_account_def storage_item_def GenerateCompositeTrieKey_def Let_def)
  have dd: "t_DeepHash deep_env [([1, 2], [6]), ([1], [7])] [1] = (True, [6])"
    by (simp add: deep_env_def sample_env_def)
  have ds: "t_DeepHash sample_env [([1, 2], [6]), ([1], [7])] [1] = (False, [])"
    "EmptyRoot sample_env = []"
    by (simp_all add: sample_env_def)
  note ed = e[OF inst[THEN conjunct2, THEN conjunct2, THEN conjunct2] t4d, of "[6]"]
  note es = e[OF inst0[THEN conjunct2, THEN conjunct2, THEN conjunct2] t4s, of "[]"]
  have ed': "updateTrieRoots deep_env False mismatch_tds =
             Return ((None, Some (MismatchedStorageRoot [1] [7] [6])),
               mismatch_tds\<lparr>tds_t := [([1, 2], [6]), ([1], [7])]\<rparr>)
           \<and> Root (accHeap (storage_items deep_env False [1] ?m
                (accountUpdates_loop deep_env (accountUpdates rewind_buffer) mismatch_tds)) 4) = [7]"
    by (rule ed) (simp_all add: dd)
  have es': "updateTrieRoots sample_env False mismatch_tds =
             Return ((None, Some (MismatchedStorageRoot [1] [7] [])),
               mismatch_tds\<lparr>tds_t := [([1, 2], [6]), ([1], [7])]\<rparr>)
           \<and> Root (accHeap (storage_items sample_env False [1] ?m
                (accountUpdates_loop sample_env (accountUpdates rewind_buffer) mismatch_tds)) 4) = [7]"
    by (rule es) (simp_all add: ds)
  have dd': "t_DeepHash deep_env (tds_t (storage_items deep_env False [1] ?m
              (accountUpdates_loop deep_env (accountUpdates rewind_buffer) mismatch_tds))) [1]
        = (True, [6])"
    unfolding t4d tt by (rule dd)
  have ds': "t_DeepHash sample_env (tds_t (storage_items sample_env False [1] ?m
              (accountUpdates_loop sample_env (accountUpdates rewind_buffer) mismatch_tds))) [1]
        = (False, [])"
    unfolding t4s tt by (rule ds)
  show ?thesis
    by (intro conjI found_run l dh plain g h1 h2 h5 h7 ed'[THEN conjunct1] ed'[THEN conjunct2]
        es'[THEN conjunct1] es'[THEN conjunct2] dd' ds' ds(2))
qed

section \<open>Properties of the resolver: PrepareResolveParams\<close>

lemma lex_take_min:
  fixes x y :: "'a::linorder list"
  shows "x < y \<longleftrightarrow>
     (take (min (length x) (length y)) x < take (min (length x) (length y)) y
      \<or> (take (min (length x) (length y)) x = take (min (length x) (length y)) y
          \<and> length x < length y))"
proof (induction x arbitrary: y)
  case Nil
  then show ?case by (cases y) auto
next
  case (Cons a xs)
  show ?case
  proof (cases y)
    case Nil
    then show ?thesis by simp
  next
    case (Cons b ys)
    with Cons.IH[of ys] show ?thesis by auto
  qed
qed

lemma Less_iff:
  assumes "resolvePos a \<le> length (resolveHex a)" and "resolvePos b \<le> length (resolveHex b)"
  shows "Less a b \<longleftrightarrow> range_key a < range_key b"
proof -
  let ?x = "take (resolvePos a) (resolveHex a)"
  let ?y = "take (resolvePos b) (resolveHex b)"
  let ?m = "min (resolvePos a) (resolvePos b)"
  from assms have lx: "length ?x = resolvePos a" and ly: "length ?y = resolvePos b" by auto
  have tx: "take ?m (resolveHex a) = take ?m ?x" by (simp add: min_def)
  have ty: "take ?m (resolveHex b) = take ?m ?y" by (simp add: min_def)
  have m: "min' (resolvePos a) (resolvePos b) = ?m" by (simp add: min'_def min_def)
  have lex: "?x < ?y \<longleftrightarrow> (take ?m ?x < take ?m ?y \<or> (take ?m ?x = take ?m ?y \<and> resolvePos a < resolvePos b))"
    using lex_take_min[of ?x ?y] unfolding lx ly .
  show ?thesis
    unfolding Less_def Let_def m tx ty range_key_def less_prod_def bytes_Compare_def
    using lex by (auto simp: not_less order.order_iff_strict)
qed

lemma set_insert_stable: "set (insert_stable lt x ys) = insert x (set ys)"
  by (induction ys) auto

lemma set_sort_Stable_aux:
  "set (foldl (\<lambda>acc x. insert_stable lt x acc) acc xs) = set acc \<union> set xs"
  by (induction xs arbitrary: acc) (auto simp: set_insert_stable)

lemma set_sort_Stable: "set (sort_Stable lt xs) = set xs"
  by (simp add: sort_Stable_def set_sort_Stable_aux)

lemma sorted_insert_stable:
  assumes "wf_req x" and "\<forall>y \<in> set ys. wf_req y" and "sorted (map range_key ys)"
  shows "sorted (map range_key (insert_stable Less x ys))"
  using assms
proof (induction ys)
  case Nil
  then show ?case by simp
next
  case (Cons y ys)
  from Cons.prems have wy: "wf_req y" by simp
  show ?case
  proof (cases "Less x y")
    case True
    with Less_iff[of x y] Cons.prems(1) wy have "range_key x < range_key y"
      by (simp add: wf_req_def)
    with Cons.prems(3) True show ?thesis by (auto simp: less_imp_le)
  next
    case False
    with Less_iff[of x y] Cons.prems(1) wy have le: "range_key y \<le> range_key x"
      by (simp add: wf_req_def not_less)
    from Cons.prems have "sorted (map range_key (insert_stable Less x ys))"
      by (intro Cons.IH) auto
    with Cons.prems(3) False le show ?thesis
      by (auto simp: set_insert_stable)
  qed
qed

lemma sorted_sort_Stable_aux:
  "\<forall>y \<in> set acc. wf_req y \<Longrightarrow> \<forall>y \<in> set xs. wf_req y \<Longrightarrow> sorted (map range_key acc) \<Longrightarrow>
   sorted (map range_key (foldl (\<lambda>acc x. insert_stable Less x acc) acc xs))"
proof (induction xs arbitrary: acc)
  case Nil
  then show ?case by simp
next
  case (Cons x xs)
  have "sorted (map range_key (insert_stable Less x acc))"
    using Cons.prems by (intro sorted_insert_stable) auto
  moreover have "\<forall>y \<in> set (insert_stable Less x acc). wf_req y"
    using Cons.prems by (auto simp: set_insert_stable)
  ultimately show ?case using Cons.prems Cons.IH[of "insert_stable Less x acc"] by simp
qed

lemma sorted_sort_Stable:
  "\<forall>y \<in> set xs. wf_req y \<Longrightarrow> sorted (map range_key (sort_Stable Less xs))"
  by (simp add: sort_Stable_def sorted_sort_Stable_aux)

lemma prepare_step_inv:
  assumes "prepare_step R topLvl i req st = Return st'" and "kept_inv st"
  shows "kept_inv st' \<and> (\<exists>p. prevReq st' = Some p \<and> range_key p = range_key req)"
proof (cases "prevReq st = None \<or> \<not> same_range req (case prevReq st of Some prev \<Rightarrow> prev | None \<Rightarrow> req)")
  case True
  with assms(1) show ?thesis
    by (auto simp: prepare_step_def Let_def kept_inv_def range_key_def suffix_of_def
        NewResolveSet_def AddHex_def split: outcome.splits)
next
  case False
  then obtain p where p: "prevReq st = Some p" and same: "same_range req p" by auto
  from assms(2) p have ne: "ps_rss st \<noteq> []" and mem: "suffix_of p \<in> set (hexes (last (ps_rss st)))"
    by (auto simp: kept_inv_def)
  from assms(1) False p ne
  have st': "st' = st\<lparr>ps_rss := butlast (ps_rss st) @ [AddHex (last (ps_rss st)) (suffix_of req)],
                     ps_done := ps_done st @ [req]\<rparr>"
    by (auto simp: prepare_step_def suffix_of_def)
  from same have "range_key p = range_key req" by (simp add: same_range_def range_key_def)
  with st' p mem show ?thesis by (auto simp: kept_inv_def AddHex_def)
qed

lemma prepare_loop_inv:
  assumes "prepare_loop R topLvl i pre st0 = Return st" and "kept_inv st0" and "pre \<noteq> []"
  shows "kept_inv st \<and> (\<exists>p. prevReq st = Some p \<and> range_key p = range_key (last pre))"
  using assms
proof (induction pre arbitrary: i st0)
  case Nil
  then show ?case by simp
next
  case (Cons x pre)
  from Cons.prems(1) obtain st1 where s1: "prepare_step R topLvl i x st0 = Return st1"
    and l1: "prepare_loop R topLvl (Suc i) pre st1 = Return st"
    by (auto split: outcome.splits)
  from prepare_step_inv[OF s1 Cons.prems(2)] have i1: "kept_inv st1"
    and p1: "\<exists>p. prevReq st1 = Some p \<and> range_key p = range_key x" by auto
  show ?case
  proof (cases "pre = []")
    case True
    with l1 i1 p1 show ?thesis by simp
  next
    case False
    from Cons.IH[OF l1 i1 False] False show ?thesis by simp
  qed
qed

lemma prefix_le:
  fixes x y :: "'a::linorder list"
  shows "prefix x y \<Longrightarrow> x \<le> y"
proof (induction x arbitrary: y)
  case Nil
  then show ?case by simp
next
  case (Cons a xs)
  then show ?case by (cases y) auto
qed

text \<open>
  Claim C2. Take the requests in the order of the stable sort, none with \<^verbatim>\<open>resolvePos\<close>
  beyond its \<^verbatim>\<open>resolveHex\<close>, and let the loop of \<^verbatim>\<open>PrepareResolveParams\<close> have passed the
  requests \<open>pre\<close> before a request \<open>req\<close>. Then there is a previous kept request \<open>p\<close>, and
  the last resolve set is the one that holds what \<open>p\<close> added. If \<open>req\<close> has the contract of
  \<open>p\<close> and its \<^verbatim>\<open>resolveHex[:resolvePos]\<close> is a prefix of (or equal to) that of \<open>p\<close>, the
  step of the loop for \<open>req\<close> leaves \<^verbatim>\<open>startkeys\<close>, \<^verbatim>\<open>fixedbits\<close> and \<^verbatim>\<open>reqIndices\<close> as
  they are and adds \<^verbatim>\<open>resolveHex[resolvePos:]\<close> of \<open>req\<close> to that last resolve set.
\<close>

theorem absorbed_requests:
  assumes wf: "\<forall>r \<in> set (requests tr). resolvePos r \<le> length (resolveHex r)"
    and split: "sort_Stable Less (requests tr) = pre @ req # post"
    and ne: "pre \<noteq> []"
    and run: "prepare_loop R (topLevels tr) 0 pre
                \<lparr> startkeys = [], fixedbits = [], ps_reqIndices = reqIndices tr, ps_rss = [],
                  prevReq = None, ps_done = [] \<rparr> = Return st"
  shows "\<exists>p. prevReq st = Some p \<and> ps_rss st \<noteq> [] \<and>
           drop (resolvePos p) (resolveHex p) \<in> set (hexes (last (ps_rss st))) \<and>
           (contract req = contract p \<and>
            prefix (take (resolvePos req) (resolveHex req)) (take (resolvePos p) (resolveHex p))
            \<longrightarrow>
            prepare_step R (topLevels tr) (length pre) req st =
              Return (st\<lparr>ps_rss := butlast (ps_rss st)
                            @ [AddHex (last (ps_rss st)) (drop (resolvePos req) (resolveHex req))],
                         ps_done := ps_done st @ [req]\<rparr>))"
proof -
  have k0: "kept_inv \<lparr> startkeys = [], fixedbits = [], ps_reqIndices = reqIndices tr, ps_rss = [],
                  prevReq = None, ps_done = [] \<rparr>"
    by (simp add: kept_inv_def)
  from prepare_loop_inv[OF run k0 ne] obtain p where inv: "kept_inv st"
    and p: "prevReq st = Some p" and key: "range_key p = range_key (last pre)" by blast
  from inv p have rne: "ps_rss st \<noteq> []"
    and mem: "drop (resolvePos p) (resolveHex p) \<in> set (hexes (last (ps_rss st)))"
    by (auto simp: kept_inv_def suffix_of_def)
  have "\<forall>y \<in> set (requests tr). wf_req y" using wf by (simp add: wf_req_def)
  from sorted_sort_Stable[OF this] split
  have "sorted (map range_key pre @ range_key req # map range_key post)" by simp
  with ne have le: "range_key (last pre) \<le> range_key req"
    by (auto simp: sorted_append last_in_set)
  have absorbed: "prepare_step R (topLevels tr) (length pre) req st =
              Return (st\<lparr>ps_rss := butlast (ps_rss st)
                            @ [AddHex (last (ps_rss st)) (drop (resolvePos req) (resolveHex req))],
                         ps_done := ps_done st @ [req]\<rparr>)"
    if c: "contract req = contract p"
      and pre: "prefix (take (resolvePos req) (resolveHex req)) (take (resolvePos p) (resolveHex p))"
  proof -
    from prefix_le[OF pre] c have "range_key req \<le> range_key p"
      by (simp add: range_key_def less_eq_prod_def)
    with le key have "range_key req = range_key p" by simp
    then have "same_range req p" by (simp add: same_range_def range_key_def)
    with p rne show ?thesis by (simp add: prepare_step_def)
  qed
  from p rne mem absorbed show ?thesis by blast
qed

lemma absorb_sorted:
  "sort_Stable Less (requests (sample_resolver
       [sample_request [1, 3, 0] 2 [], sample_request [1, 2, 3] 2 [], sample_request [1, 2, 4] 2 []]))
     = [sample_request [1, 2, 3] 2 []] @ sample_request [1, 2, 4] 2 [] # [sample_request [1, 3, 0] 2 []]"
  by (simp add: sort_Stable_def Less_def bytes_Compare_def min'_def sample_request_def
      sample_resolver_def)

lemma absorb_pre:
  "prepare_loop sample_renv
       (topLevels (sample_resolver
          [sample_request [1, 3, 0] 2 [], sample_request [1, 2, 3] 2 [], sample_request [1, 2, 4] 2 []]))
       0 [sample_request [1, 2, 3] 2 []]
       \<lparr> startkeys = [], fixedbits = [],
         ps_reqIndices = reqIndices (sample_resolver
          [sample_request [1, 3, 0] 2 [], sample_request [1, 2, 3] 2 [], sample_request [1, 2, 4] 2 []]),
         ps_rss = [], prevReq = None, ps_done = [] \<rparr>
     = Return absorb_kept"
  by (simp add: prepare_step_def same_range_def NewResolveSet_def AddHex_def Let_def
      sample_request_def sample_resolver_def sample_renv_def absorb_kept_def)

theorem absorbed_requests_witness:
  "list_all (\<lambda>r. resolvePos r \<le> length (resolveHex r))
      (requests (sample_resolver
         [sample_request [1, 3, 0] 2 [], sample_request [1, 2, 3] 2 [], sample_request [1, 2, 4] 2 []]))
   \<and> sort_Stable Less (requests (sample_resolver
       [sample_request [1, 3, 0] 2 [], sample_request [1, 2, 3] 2 [], sample_request [1, 2, 4] 2 []]))
     = [sample_request [1, 2, 3] 2 []] @ sample_request [1, 2, 4] 2 [] # [sample_request [1, 3, 0] 2 []]
   \<and> prevReq absorb_kept = Some ((sample_request [1, 2, 3] 2 [])\<lparr>extResolvePos := 2\<rparr>)
   \<and> prefix (take (resolvePos (sample_request [1, 2, 4] 2 [])) (resolveHex (sample_request [1, 2, 4] 2 [])))
        (take (resolvePos ((sample_request [1, 2, 3] 2 [])\<lparr>extResolvePos := 2\<rparr>))
           (resolveHex ((sample_request [1, 2, 3] 2 [])\<lparr>extResolvePos := 2\<rparr>)))
   \<and> prepare_step sample_renv 0 1 (sample_request [1, 2, 4] 2 []) absorb_kept =
       Return (absorb_kept\<lparr>ps_rss := [\<lparr>minLength = 0, hexes = [[3], [4]]\<rparr>],
                 ps_done := [(sample_request [1, 2, 3] 2 [])\<lparr>extResolvePos := 2\<rparr>,
                             sample_request [1, 2, 4] 2 []]\<rparr>)"
proof -
  let ?tr = "sample_resolver
       [sample_request [1, 3, 0] 2 [], sample_request [1, 2, 3] 2 [], sample_request [1, 2, 4] 2 []]"
  let ?p = "(sample_request [1, 2, 3] 2 [])\<lparr>extResolvePos := 2\<rparr>"
  let ?req = "sample_request [1, 2, 4] 2 []"
  have wf: "\<forall>r \<in> set (requests ?tr). resolvePos r \<le> length (resolveHex r)"
    by (simp add: sample_resolver_def sample_request_def)
  have ne: "[sample_request [1, 2, 3] 2 []] \<noteq> []" by simp
  have prev: "prevReq absorb_kept = Some ?p" by (simp add: absorb_kept_def)
  have c: "contract ?req = contract ?p" by (simp add: sample_request_def)
  have pre: "prefix (take (resolvePos ?req) (resolveHex ?req)) (take (resolvePos ?p) (resolveHex ?p))"
    by (simp add: sample_request_def)
  from absorbed_requests[OF wf absorb_sorted ne absorb_pre] prev c pre
  have step: "prepare_step sample_renv (topLevels ?tr) (length [sample_request [1, 2, 3] 2 []]) ?req absorb_kept =
       Return (absorb_kept\<lparr>ps_rss := butlast (ps_rss absorb_kept)
                    @ [AddHex (last (ps_rss absorb_kept)) (drop (resolvePos ?req) (resolveHex ?req))],
                 ps_done := ps_done absorb_kept @ [?req]\<rparr>)"
    by auto
  have ev: "absorb_kept\<lparr>ps_rss := butlast (ps_rss absorb_kept)
                    @ [AddHex (last (ps_rss absorb_kept)) (drop (resolvePos ?req) (resolveHex ?req))],
                 ps_done := ps_done absorb_kept @ [?req]\<rparr>
            = absorb_kept\<lparr>ps_rss := [\<lparr>minLength = 0, hexes = [[3], [4]]\<rparr>],
                 ps_done := [?p, ?req]\<rparr>"
    by (simp add: absorb_kept_def AddHex_def sample_request_def)
  have t: "topLevels ?tr = 0" by (simp add: sample_resolver_def)
  from step have step': "prepare_step sample_renv 0 1 ?req absorb_kept =
       Return (absorb_kept\<lparr>ps_rss := [\<lparr>minLength = 0, hexes = [[3], [4]]\<rparr>],
                 ps_done := [?p, ?req]\<rparr>)"
    unfolding ev t by simp
  from wf have wf': "list_all (\<lambda>r. resolvePos r \<le> length (resolveHex r)) (requests ?tr)"
    by (simp add: list_all_iff)
  show ?thesis
    by (intro conjI wf' absorb_sorted prev pre step')
qed

text \<open>
  A request whose range lies inside that of the request before it, its
  \<^verbatim>\<open>resolveHex[:resolvePos]\<close> being longer, is not absorbed: it gets a start key of its
  own.
\<close>

lemma nested_request_kept:
  "PrepareResolveParams sample_renv
       (sample_resolver [sample_request [1, 2] 1 [], sample_request [1, 2] 2 []])
     = Return (([[1], [1, 2]], [4, 8]),
         (sample_resolver [sample_request [1, 2] 1 [], sample_request [1, 2] 2 []])
           \<lparr>requests := [(sample_request [1, 2] 1 [])\<lparr>extResolvePos := 1\<rparr>,
                         (sample_request [1, 2] 2 [])\<lparr>extResolvePos := 2\<rparr>],
            reqIndices := [0, 1],
            rss := [\<lparr>minLength = 0, hexes = [[2]]\<rparr>, \<lparr>minLength = 0, hexes = [[]]\<rparr>],
            currentReq := Some 0, currentRs := Some 0\<rparr>)"
  by (simp add: PrepareResolveParams_def sort_Stable_def Less_def bytes_Compare_def min'_def
      prepare_step_def same_range_def NewResolveSet_def AddHex_def Let_def
      sample_request_def sample_resolver_def sample_renv_def)

section \<open>Properties of the resolver: the check of the hash\<close>

lemma advance_frame:
  assumes "advance R newSucc tr = Return tr1"
  shows "parentTries tr1 = parentTries tr" "requests tr1 = requests tr"
    "currentReq tr1 = currentReq tr" "tr_succ tr1 = newSucc" "keyIdx tr1 = keyIdx tr"
    "reqIndices tr1 = reqIndices tr" "rss tr1 = rss tr" "accounts tr1 = accounts tr"
  using assms
  by (auto simp: advance_def Let_def split: if_splits option.splits prod.splits)

lemma advance_idle:
  assumes "tr_succ tr = []"
  shows "advance R [] tr = Return (tr\<lparr>tr_prec := tr_curr tr, tr_curr := [], tr_succ := []\<rparr>)"
  using assms by (simp add: advance_def Let_def)

lemma finish_mismatch:
  assumes "hb_hasRoot R (tr_hb tr)" and "currentReq tr = Some i" and "i < length (requests tr)"
    and "resolveHash (requests tr ! i) \<noteq> []"
    and "resolveHash (requests tr ! i) \<noteq> hb_rootHash R (tr_hb tr)"
  shows "finish_range R final tr =
           Return (Some (MismatchingHash (resolveHash (requests tr ! i)) (hb_rootHash R (tr_hb tr))), tr)"
  using assms by (simp add: finish_range_def Let_def)

lemma finish_match:
  assumes "hb_hasRoot R (tr_hb tr)" and "currentReq tr = Some i" and "i < length (requests tr)"
    and "resolveHash (requests tr ! i) = hb_rootHash R (tr_hb tr)"
    and "resolvePos (requests tr ! i) \<le> length (resolveHex (requests tr ! i))"
  shows "\<exists>tr'. finish_range R final tr = Return (None, tr') \<and>
           parentTries tr' = (parentTries tr)
             (req_t (requests tr ! i) :=
                t_hook R
                  (if final
                   then t_touchAll R (parentTries tr (req_t (requests tr ! i))) (hb_root R (tr_hb tr))
                          (take (resolvePos (requests tr ! i)) (resolveHex (requests tr ! i))) False
                   else parentTries tr (req_t (requests tr ! i)))
                  (take (resolvePos (requests tr ! i)) (resolveHex (requests tr ! i)))
                  (hb_root R (tr_hb tr))) \<and>
           reqIndices tr' = reqIndices tr \<and> length (requests tr') = length (requests tr) \<and>
           rss tr' = rss tr \<and> tr_succ tr' = tr_succ tr"
  using assms by (auto simp: finish_range_def Let_def)

lemma Walker_mismatch:
  assumes "newIdx \<noteq> keyIdx tr" and "advance R [] tr = Return tr1"
    and "hb_hasRoot R (tr_hb tr1)" and "currentReq tr1 = Some i" and "i < length (requests tr1)"
    and "resolveHash (requests tr1 ! i) \<noteq> []"
    and "resolveHash (requests tr1 ! i) \<noteq> hb_rootHash R (tr_hb tr1)"
  shows "Walker R newIdx k v tr =
           Return ((False, Some (MismatchingHash (resolveHash (requests tr1 ! i))
                                   (hb_rootHash R (tr_hb tr1)))), tr1)"
  using assms finish_mismatch[OF assms(3-7), of False]
  by (simp add: Walker_def change_range_def)



lemma take_entry_frame:
  assumes "take_entry R k v tr = Return (r, tr')"
  shows "parentTries tr' = parentTries tr"
proof -
  from assms obtain j where j: "currentReq tr = Some j" and jl: "j < length (requests tr)"
    by (auto simp: take_entry_def split: option.splits if_splits)
  let ?skip = "extResolvePos (requests tr ! j)"
  from assms j jl obtain tr1 where a: "advance R (key_nibbles ?skip 0 k @ [16]) tr = Return tr1"
    by (cases "advance R (key_nibbles ?skip 0 k @ [16]) tr") (auto simp: take_entry_def Let_def)
  from advance_frame(1)[OF a] have p1: "parentTries tr1 = parentTries tr" .
  from assms j jl a show ?thesis
    using p1 by (auto simp: take_entry_def Let_def split: if_splits prod.splits option.splits)
qed

lemma take_entry_fresh:
  assumes "currentReq tr = Some j" and "j < length (requests tr)"
    and "tr_curr tr = []" and "tr_succ tr = []"
  shows "\<exists>r tr'. take_entry R k v tr = Return (r, tr')"
proof -
  let ?skip = "extResolvePos (requests tr ! j)"
  have a: "advance R (key_nibbles ?skip 0 k @ [16]) tr =
             Return (tr\<lparr>tr_prec := [], tr_curr := [], tr_succ := key_nibbles ?skip 0 k @ [16]\<rparr>)"
    using assms(3,4) by (simp add: advance_def Let_def)
  show ?thesis
    using assms(1,2) by (auto simp: take_entry_def Let_def a split: prod.splits option.splits)
qed

lemma take_entry_never_stops: "take_entry R k v tr \<noteq> Return ((False, None), tr')"
proof (cases "currentReq tr")
  case None
  then show ?thesis by (simp add: take_entry_def)
next
  case (Some j)
  show ?thesis
  proof (cases "j < length (requests tr)")
    case False
    with Some show ?thesis by (simp add: take_entry_def)
  next
    case True
    let ?skip = "extResolvePos (requests tr ! j)"
    show ?thesis
    proof (cases "advance R (key_nibbles ?skip 0 k @ [16]) tr")
      case Panic
      with Some True show ?thesis by (simp add: take_entry_def Let_def)
    next
      case (Return tr1)
      with Some True show ?thesis
        by (simp add: take_entry_def Let_def split: prod.splits option.splits)
    qed
  qed
qed


lemma Walker_never_stops: "Walker R i k v s \<noteq> Return ((False, None), s')"
proof (cases "if i \<noteq> keyIdx s then change_range R i s else Return (None, s)")
  case Panic
  then show ?thesis by (simp add: Walker_def)
next
  case (Return r)
  obtain e s1 where r: "r = (e, s1)" by (cases r)
  show ?thesis
  proof (cases e)
    case (Some a)
    with Return r show ?thesis by (simp add: Walker_def)
  next
    case None
    with Return r take_entry_never_stops[of R k v s1 s'] show ?thesis
      by (simp add: Walker_def)
  qed
qed

lemma multiwalk_loop_append:
  assumes "\<And>i k v s s'. w i k v s \<noteq> Return ((False, None), s')"
  shows "multiwalk_loop (xs @ ys) w s =
     (case multiwalk_loop xs w s of
        Panic \<Rightarrow> Panic
      | Return (Some e, s') \<Rightarrow> Return (Some e, s')
      | Return (None, s') \<Rightarrow> multiwalk_loop ys w s')"
proof (induction xs arbitrary: s)
  case Nil
  then show ?case by simp
next
  case (Cons x xs)
  obtain i k v where x: "x = (i, k, v)" by (cases x)
  show ?case
  proof (cases "w i k v s")
    case Panic
    with x show ?thesis by simp
  next
    case (Return r)
    obtain g e s1 where r: "r = ((g, e), s1)" by (cases r) auto
    show ?thesis
    proof (cases e)
      case (Some a)
      with x Return r show ?thesis by (cases g) simp_all
    next
      case None
      with assms[of i k v s s1] Return r have g by (cases g) auto
      with x Return r None Cons.IH[of s1] show ?thesis by simp
    qed
  qed
qed


lemma Walker_match:
  assumes "newIdx \<noteq> keyIdx tr" and "advance R [] tr = Return tr1"
    and "hb_hasRoot R (tr_hb tr1)" and "currentReq tr1 = Some i" and "i < length (requests tr1)"
    and "resolveHash (requests tr1 ! i) = hb_rootHash R (tr_hb tr1)"
    and "resolvePos (requests tr1 ! i) \<le> length (resolveHex (requests tr1 ! i))"
    and "newIdx < length (reqIndices tr)" and "reqIndices tr ! newIdx < length (requests tr)"
    and "newIdx < length (rss tr)"
  shows "\<exists>r tr'. Walker R newIdx k v tr = Return (r, tr') \<and>
           parentTries tr' = (parentTries tr)
             (req_t (requests tr1 ! i) :=
                t_hook R (parentTries tr (req_t (requests tr1 ! i)))
                  (take (resolvePos (requests tr1 ! i)) (resolveHex (requests tr1 ! i)))
                  (hb_root R (tr_hb tr1)))"
proof -
  note fr = advance_frame[OF assms(2)]
  let ?pt = "(parentTries tr)
             (req_t (requests tr1 ! i) :=
                t_hook R (parentTries tr (req_t (requests tr1 ! i)))
                  (take (resolvePos (requests tr1 ! i)) (resolveHex (requests tr1 ! i)))
                  (hb_root R (tr_hb tr1)))"
  from finish_match[OF assms(3-7), of False] obtain tr2 where
    f: "finish_range R False tr1 = Return (None, tr2)"
    and pt: "parentTries tr2 = ?pt"
    and ri: "reqIndices tr2 = reqIndices tr" and lr: "length (requests tr2) = length (requests tr)"
    and rs: "rss tr2 = rss tr" and su: "tr_succ tr2 = []"
    unfolding fr by auto
  let ?tr3 = "tr2\<lparr>tr_hb := hb_Reset R (tr_hb tr2), groups := [], tr_prefix := [],
                  keyIdx := newIdx, currentReq := Some (reqIndices tr2 ! newIdx),
                  currentRs := Some newIdx, tr_curr := [], tr_prec := []\<rparr>"
  have c: "change_range R newIdx tr = Return (None, ?tr3)"
    using assms(8-10) by (simp add: change_range_def assms(2) f ri lr rs)
  have p3: "parentTries ?tr3 = ?pt" using pt by simp
  show ?thesis
  proof (cases "length v > 0")
    case False
    with c assms(1) p3 show ?thesis by (auto simp: Walker_def)
  next
    case True
    have "\<exists>r tr'. take_entry R k v ?tr3 = Return (r, tr')"
      by (rule take_entry_fresh[where j = "reqIndices tr2 ! newIdx"])
        (use assms(9) ri lr su in simp_all)
    then obtain r tr' where t: "take_entry R k v ?tr3 = Return (r, tr')" by blast
    from take_entry_frame[OF t] p3 have "parentTries tr' = ?pt" by simp
    moreover have "Walker R newIdx k v tr = Return (r, tr')"
      using assms(1) True by (simp add: Walker_def c t)
    ultimately show ?thesis by blast
  qed
qed


lemma resolve_walker_mismatch:
  assumes prep: "PrepareResolveParams R tr = Return ((keys, bits), tr0)"
    and ranges: "resolver_ranges R d blockNo keys bits tr0 = Inr (es1 @ (newIdx, k, v) # es2)"
    and before: "multiwalk_loop es1 (Walker R) tr0 = Return (None, s)"
    and "newIdx \<noteq> keyIdx s" and "advance R [] s = Return s1"
    and "hb_hasRoot R (tr_hb s1)" and "currentReq s1 = Some i" and "i < length (requests s1)"
    and "resolveHash (requests s1 ! i) \<noteq> []"
    and "resolveHash (requests s1 ! i) \<noteq> hb_rootHash R (tr_hb s1)"
  shows "ResolveWithDb R (Some d) blockNo tr =
           Return (Some (MismatchingHash (resolveHash (requests s1 ! i)) (hb_rootHash R (tr_hb s1))),
                   s1\<lparr>tr_prec := tr_curr s1, tr_curr := [], tr_succ := []\<rparr>)
         \<and> parentTries s1 = parentTries s"
proof -
  let ?e = "MismatchingHash (resolveHash (requests s1 ! i)) (hb_rootHash R (tr_hb s1))"
  let ?s2 = "s1\<lparr>tr_prec := tr_curr s1, tr_curr := [], tr_succ := []\<rparr>"
  note fr = advance_frame[OF assms(5)]
  from Walker_mismatch[OF assms(4-10)]
  have w: "Walker R newIdx k v s = Return ((False, Some ?e), s1)" .
  have app: "multiwalk_loop (es1 @ (newIdx, k, v) # es2) (Walker R) tr0 =
     (case multiwalk_loop es1 (Walker R) tr0 of
        Panic \<Rightarrow> Panic
      | Return (Some e, s') \<Rightarrow> Return (Some e, s')
      | Return (None, s') \<Rightarrow> multiwalk_loop ((newIdx, k, v) # es2) (Walker R) s')"
    by (rule multiwalk_loop_append) (rule Walker_never_stops)
  have loop: "multiwalk_loop (es1 @ (newIdx, k, v) # es2) (Walker R) tr0 = Return (Some ?e, s1)"
    by (simp add: app before w)
  have a: "advance R [] s1 = Return ?s2" using fr(4) by (rule advance_idle)
  have f: "finish_range R True ?s2 = Return (Some ?e, ?s2)"
    using finish_mismatch[of R ?s2 i True] assms(6-10) by simp
  have "ResolveWithDb R (Some d) blockNo tr = Return (Some ?e, ?s2)"
    unfolding ResolveWithDb_def prep by (simp add: ranges MultiWalk_def loop a f del: multiwalk_loop.simps)
  with fr(1) show ?thesis by simp
qed


lemma resolve_final_mismatch:
  assumes prep: "PrepareResolveParams R tr = Return ((keys, bits), tr0)"
    and walk: "MultiWalk (resolver_ranges R d blockNo keys bits tr0) (Walker R) tr0 = Return (err, s)"
    and adv: "advance R [] s = Return s1"
    and root: "hb_hasRoot R (tr_hb s1)" and cur: "currentReq s1 = Some i" and i: "i < length (requests s1)"
    and ne: "resolveHash (requests s1 ! i) \<noteq> []"
    and mis: "resolveHash (requests s1 ! i) \<noteq> hb_rootHash R (tr_hb s1)"
  shows "ResolveWithDb R (Some d) blockNo tr =
              Return (Some (MismatchingHash (resolveHash (requests s1 ! i)) (hb_rootHash R (tr_hb s1))), s1)
            \<and> parentTries s1 = parentTries s"
proof -
  have f: "finish_range R True s1 =
     Return (Some (MismatchingHash (resolveHash (requests s1 ! i)) (hb_rootHash R (tr_hb s1))), s1)"
    by (rule finish_mismatch[OF root cur i ne mis])
  have "ResolveWithDb R (Some d) blockNo tr =
     Return (Some (MismatchingHash (resolveHash (requests s1 ! i)) (hb_rootHash R (tr_hb s1))), s1)"
    unfolding ResolveWithDb_def prep by (simp add: walk adv f)
  with advance_frame(1)[OF adv] show ?thesis by simp
qed

lemma resolve_final_match:
  assumes prep: "PrepareResolveParams R tr = Return ((keys, bits), tr0)"
    and walk: "MultiWalk (resolver_ranges R d blockNo keys bits tr0) (Walker R) tr0 = Return (err, s)"
    and adv: "advance R [] s = Return s1"
    and root: "hb_hasRoot R (tr_hb s1)" and cur: "currentReq s1 = Some i" and i: "i < length (requests s1)"
    and eq: "resolveHash (requests s1 ! i) = hb_rootHash R (tr_hb s1)"
    and pos: "resolvePos (requests s1 ! i) \<le> length (resolveHex (requests s1 ! i))"
  shows "\<exists>s2. ResolveWithDb R (Some d) blockNo tr = Return (err, s2) \<and>
               parentTries s2 = (parentTries s)
                 (req_t (requests s1 ! i) :=
                    t_hook R
                      (t_touchAll R (parentTries s (req_t (requests s1 ! i))) (hb_root R (tr_hb s1))
                         (take (resolvePos (requests s1 ! i)) (resolveHex (requests s1 ! i))) False)
                      (take (resolvePos (requests s1 ! i)) (resolveHex (requests s1 ! i)))
                      (hb_root R (tr_hb s1)))"
proof -
  from finish_match[OF root cur i eq pos, of True] obtain s2 where
    f: "finish_range R True s1 = Return (None, s2)"
    and pt: "parentTries s2 = (parentTries s1)
                 (req_t (requests s1 ! i) :=
                    t_hook R
                      (t_touchAll R (parentTries s1 (req_t (requests s1 ! i))) (hb_root R (tr_hb s1))
                         (take (resolvePos (requests s1 ! i)) (resolveHex (requests s1 ! i))) False)
                      (take (resolvePos (requests s1 ! i)) (resolveHex (requests s1 ! i)))
                      (hb_root R (tr_hb s1)))"
    by auto
  have r: "ResolveWithDb R (Some d) blockNo tr = Return (err, s2)"
    unfolding ResolveWithDb_def prep by (simp add: walk adv f)
  from pt have "parentTries s2 = (parentTries s)
                 (req_t (requests s1 ! i) :=
                    t_hook R
                      (t_touchAll R (parentTries s (req_t (requests s1 ! i))) (hb_root R (tr_hb s1))
                         (take (resolvePos (requests s1 ! i)) (resolveHex (requests s1 ! i))) False)
                      (take (resolvePos (requests s1 ! i)) (resolveHex (requests s1 ! i)))
                      (hb_root R (tr_hb s1)))"
    unfolding advance_frame(1)[OF adv] .
  with r show ?thesis by blast
qed

lemmas sample_resolver_defs =
  reqA_def reqB_def sample_request_def sample_resolver_def resolver_prepared_def resolver_first_def
  resolver_first_closed_def resolver_second_def resolver_second_closed_def sample_renv_def

lemma sample_sorted:
  "sort_Stable Less [reqB hB, reqA hA] = [reqA hA, reqB hB]"
  by (simp add: sort_Stable_def Less_def bytes_Compare_def min'_def reqA_def reqB_def sample_request_def)

lemma sample_prep:
  "PrepareResolveParams sample_renv (sample_resolver [reqB hB, reqA hA]) =
     Return (([[1], [2]], [4, 4]), resolver_prepared hA hB)"
proof -
  have r: "requests (sample_resolver [reqB hB, reqA hA]) = [reqB hB, reqA hA]"
    by (simp add: sample_resolver_def)
  show ?thesis
    unfolding PrepareResolveParams_def r sample_sorted
    by (simp add: prepare_step_def same_range_def NewResolveSet_def AddHex_def Let_def
        sample_resolver_defs)
qed

lemma sample_first:
  "multiwalk_loop [(0, [16], [7])] (Walker sample_renv) (resolver_prepared hA hB) =
     Return (None, resolver_first hA hB)"
  by (simp add: Walker_def take_entry_def advance_def Let_def sample_resolver_defs)

lemma sample_first_closed:
  "advance sample_renv [] (resolver_first hA hB) = Return (resolver_first_closed hA hB)"
  by (simp add: advance_def Let_def sample_resolver_defs)

lemma sample_second:
  "Walker sample_renv 1 [32] [8] (resolver_first [7] hB) = Return ((True, None), resolver_second [7] hB)"
  by (simp add: Walker_def change_range_def finish_range_def take_entry_def advance_def Let_def
      sample_resolver_defs)

lemma sample_second_closed:
  "advance sample_renv [] (resolver_second hA hB) = Return (resolver_second_closed hA hB)"
  by (simp add: advance_def Let_def sample_resolver_defs)

lemma sample_ranges:
  "resolver_ranges sample_renv sample_entries 1 [[1], [2]] [4, 4] (resolver_prepared hA hB)
     = Inr ([(0, [16], [7])] @ (1, [32], [8]) # [])"
  by (simp add: resolver_ranges_def sample_entries_def sample_resolver_defs)

lemma sample_first_walker:
  "Walker sample_renv 0 [16] [7] (resolver_prepared hA hB) = Return ((True, None), resolver_first hA hB)"
  by (simp add: Walker_def take_entry_def advance_def Let_def sample_resolver_defs)

lemma sample_hook:
  "t_hook sample_renv t at n = t @ [(at, n)]"
  "t_touchAll sample_renv t n at del = t"
  by (simp_all add: sample_renv_def)

lemma sample_walk:
  "MultiWalk (resolver_ranges sample_renv sample_entries 1 [[1], [2]] [4, 4] (resolver_prepared [7] hB))
     (Walker sample_renv) (resolver_prepared [7] hB) = Return (None, resolver_second [7] hB)"
  by (simp add: sample_ranges MultiWalk_def sample_first_walker sample_second[unfolded One_nat_def])

lemma first_closed_facts:
  "keyIdx (resolver_first hA hB) = 0"
  "hb_hasRoot sample_renv (tr_hb (resolver_first_closed hA hB))"
  "currentReq (resolver_first_closed hA hB) = Some 0"
  "0 < length (requests (resolver_first_closed hA hB))"
  "resolveHash (requests (resolver_first_closed hA hB) ! 0) = hA"
  "hb_rootHash sample_renv (tr_hb (resolver_first_closed hA hB)) = [7]"
  "hb_root sample_renv (tr_hb (resolver_first_closed hA hB)) = [([16], [7])]"
  "resolvePos (requests (resolver_first_closed hA hB) ! 0) = 1"
  "resolveHex (requests (resolver_first_closed hA hB) ! 0) = [1, 0]"
  "req_t (requests (resolver_first_closed hA hB) ! 0) = 0"
  "parentTries (resolver_first_closed hA hB) = (\<lambda>t. [])"
  "parentTries (resolver_first hA hB) = (\<lambda>t. [])"
  "reqIndices (resolver_first hA hB) = [0, 1]"
  "length (requests (resolver_first hA hB)) = 2"
  "length (rss (resolver_first hA hB)) = 2"
  "tr_curr (resolver_first_closed hA hB) = [0, 16]"
  by (simp_all add: sample_resolver_defs)

lemma second_closed_facts:
  "hb_hasRoot sample_renv (tr_hb (resolver_second_closed hA hB))"
  "currentReq (resolver_second_closed hA hB) = Some (Suc 0)"
  "Suc 0 < length (requests (resolver_second_closed hA hB))"
  "resolveHash (requests (resolver_second_closed hA hB) ! Suc 0) = hB"
  "hb_rootHash sample_renv (tr_hb (resolver_second_closed hA hB)) = [8]"
  "hb_root sample_renv (tr_hb (resolver_second_closed hA hB)) = [([32], [8])]"
  "resolvePos (requests (resolver_second_closed hA hB) ! Suc 0) = 1"
  "resolveHex (requests (resolver_second_closed hA hB) ! Suc 0) = [2, 0]"
  "req_t (requests (resolver_second_closed hA hB) ! Suc 0) = 0"
  "parentTries (resolver_second hA hB) = (\<lambda>t. [])(0 := [([1], [([16], [7])])])"
  "parentTries (resolver_second_closed hA hB) = (\<lambda>t. [])(0 := [([1], [([16], [7])])])"
  by (simp_all add: sample_resolver_defs)

lemma absorbed_sorted:
  "sort_Stable Less [reqA hA, reqC hC] = [reqA hA, reqC hC]"
  by (simp add: sort_Stable_def Less_def bytes_Compare_def min'_def reqA_def reqC_def sample_request_def)

lemma absorbed_prep:
  "PrepareResolveParams sample_renv (sample_resolver [reqA [7], reqC [9]]) =
     Return (([[1]], [4]),
       (sample_resolver [reqA [7], reqC [9]])
         \<lparr>requests := [(reqA [7])\<lparr>extResolvePos := 1\<rparr>, reqC [9]],
          reqIndices := [0],
          rss := [\<lparr>minLength = 0, hexes = [[0], [5]]\<rparr>],
          currentReq := Some 0, currentRs := Some 0\<rparr>)"
proof -
  have r: "requests (sample_resolver [reqA [7], reqC [9]]) = [reqA [7], reqC [9]]"
    by (simp add: sample_resolver_def)
  show ?thesis
    unfolding PrepareResolveParams_def r absorbed_sorted
    by (simp add: prepare_step_def same_range_def NewResolveSet_def AddHex_def Let_def
        sample_resolver_defs reqC_def)
qed

lemma take_entry_current:
  assumes "take_entry R k v tr = Return (r, tr')"
  shows "reqIndices tr' = reqIndices tr \<and> keyIdx tr' = keyIdx tr \<and> currentReq tr' = currentReq tr"
proof -
  from assms obtain j where j: "currentReq tr = Some j" and jl: "j < length (requests tr)"
    by (auto simp: take_entry_def split: option.splits if_splits)
  let ?skip = "extResolvePos (requests tr ! j)"
  from assms j jl obtain tr1 where a: "advance R (key_nibbles ?skip 0 k @ [16]) tr = Return tr1"
    by (cases "advance R (key_nibbles ?skip 0 k @ [16]) tr") (auto simp: take_entry_def Let_def)
  note f = advance_frame(3,5,6)[OF a]
  from assms j jl a show ?thesis
    using f by (auto simp: take_entry_def Let_def split: if_splits prod.splits option.splits)
qed

lemma finish_range_current:
  assumes "finish_range R final tr = Return (e, tr')"
  shows "reqIndices tr' = reqIndices tr \<and> keyIdx tr' = keyIdx tr \<and> currentReq tr' = currentReq tr"
  using assms
  by (auto simp: finish_range_def Let_def split: if_splits option.splits)

lemma change_range_current:
  assumes "change_range R newIdx tr = Return (None, tr')"
  shows "reqIndices tr' = reqIndices tr \<and> keyIdx tr' = newIdx \<and>
         currentReq tr' = Some (reqIndices tr ! newIdx)"
proof -
  from assms obtain tr1 where a: "advance R [] tr = Return tr1"
    by (cases "advance R [] tr") (auto simp: change_range_def)
  from assms a obtain tr2 where f: "finish_range R False tr1 = Return (None, tr2)"
    by (cases "finish_range R False tr1")
      (auto simp: change_range_def split: prod.splits option.splits)
  note fa = advance_frame(6)[OF a]
  note ff = finish_range_current[OF f]
  from assms a f show ?thesis
    using fa ff by (auto simp: change_range_def split: if_splits)
qed

lemma Walker_current:
  assumes "Walker R newIdx k v tr = Return ((goOn, None), tr')"
  shows "reqIndices tr' = reqIndices tr \<and> keyIdx tr' = newIdx \<and>
         currentReq tr' = (if newIdx = keyIdx tr then currentReq tr else Some (reqIndices tr ! newIdx))"
proof (cases "newIdx = keyIdx tr")
  case True
  show ?thesis
  proof (cases "length v > 0")
    case v: True
    with assms True have "take_entry R k v tr = Return ((goOn, None), tr')"
      by (simp add: Walker_def)
    from take_entry_current[OF this] True show ?thesis by simp
  next
    case False
    with assms True show ?thesis by (simp add: Walker_def)
  qed
next
  case False
  from assms False obtain tr1 where c: "change_range R newIdx tr = Return (None, tr1)"
    by (cases "change_range R newIdx tr")
      (auto simp: Walker_def split: prod.splits option.splits)
  note cc = change_range_current[OF c]
  show ?thesis
  proof (cases "length v > 0")
    case v: True
    with assms False c have "take_entry R k v tr1 = Return ((goOn, None), tr')"
      by (simp add: Walker_def)
    from take_entry_current[OF this] cc False show ?thesis by simp
  next
    case v: False
    with assms False c have "tr' = tr1" by (simp add: Walker_def)
    with cc False show ?thesis by simp
  qed
qed

lemma prepare_current:
  assumes "PrepareResolveParams R tr = Return (kb, tr0)" and "requests tr \<noteq> []"
  shows "reqIndices tr0 \<noteq> [] \<and> currentReq tr0 = Some (reqIndices tr0 ! 0) \<and> keyIdx tr0 = keyIdx tr"
  using assms
  by (auto simp: PrepareResolveParams_def split: if_splits outcome.splits list.splits)

text \<open>
  Only the current request has its hash compared. Here \<open>C\<close> asks for the range of \<open>A\<close> and
  is absorbed by \<^verbatim>\<open>PrepareResolveParams\<close>; it expects the hash \<open>[9]\<close>, the root built for
  the range has the hash \<open>[7]\<close>, which is what \<open>A\<close> expects, and \<^verbatim>\<open>ResolveWithDb\<close> returns
  no error and hooks the root into the trie of \<open>C\<close>.
\<close>

theorem absorbed_request_unchecked:
  "range_key (reqC [9]) = range_key (reqA [7])
   \<and> ResolveWithDb sample_renv (Some [(0, [16], [7])]) 1 (sample_resolver [reqA [7], reqC [9]])
       = Return (None, absorbed_final)
   \<and> requests absorbed_final ! 1 = reqC [9]
   \<and> resolveHash (reqC [9]) = [9]
   \<and> hb_rootHash sample_renv (tr_hb absorbed_final) = [7]
   \<and> parentTries absorbed_final (req_t (reqC [9])) = [([1], [([16], [7])])]"
proof -
  have a: "range_key (reqC [9]) = range_key (reqA [7])"
    by (simp add: range_key_def reqC_def reqA_def sample_request_def)
  have b: "ResolveWithDb sample_renv (Some [(0, [16], [7])]) 1 (sample_resolver [reqA [7], reqC [9]])
       = Return (None, absorbed_final)"
    unfolding ResolveWithDb_def absorbed_prep
    by (simp add: MultiWalk_def resolver_ranges_def Walker_def take_entry_def advance_def
        finish_range_def Let_def absorbed_final_def sample_resolver_defs reqC_def)
  have c: "requests absorbed_final ! 1 = reqC [9]"
    "resolveHash (reqC [9]) = [9]"
    "hb_rootHash sample_renv (tr_hb absorbed_final) = [7]"
    "parentTries absorbed_final (req_t (reqC [9])) = [([1], [([16], [7])])]"
    by (simp_all add: absorbed_final_def sample_resolver_defs reqC_def)
  from a b c show ?thesis by (intro conjI)
qed

text \<open>
  Claim C1, for the request that is current when its range is closed. Closing the range
  of the current request, with a hash builder that has a root:
  \<^item> in \<^verbatim>\<open>Walker\<close>, on a change of \<^verbatim>\<open>keyIdx\<close>, when the request's \<^verbatim>\<open>resolveHash\<close> is not
    empty and differs from the hash of the root, the walker returns \<^verbatim>\<open>false\<close> and a
    mismatch error, and no trie has changed;
  \<^item> in \<^verbatim>\<open>Walker\<close>, when the hashes are equal (and the positions of the new range exist),
    the walker returns, and the parent trie of the request is the one that \<^verbatim>\<open>hook\<close>
    gives for \<^verbatim>\<open>resolveHex[:resolvePos]\<close> and the root;
  \<^item> when the walk of \<^verbatim>\<open>ResolveWithDb\<close> reaches such a mismatch in the walker,
    \<^verbatim>\<open>ResolveWithDb\<close> returns the mismatch error and no trie has changed since that
    entry;
  \<^item> when the walk has ended and the last range is closed with a mismatch,
    \<^verbatim>\<open>ResolveWithDb\<close> returns the mismatch error and no trie has changed since the end
    of the walk;
  \<^item> when the last range is closed with equal hashes, \<^verbatim>\<open>ResolveWithDb\<close> returns what the
    walk returned, and the parent trie of the request is the one that \<^verbatim>\<open>hook\<close> gives,
    after \<^verbatim>\<open>touchAll\<close>, for \<^verbatim>\<open>resolveHex[:resolvePos]\<close> and the root;
  \<^item> the current request is the one that \<^verbatim>\<open>reqIndices\<close> names for the range:
    \<^verbatim>\<open>PrepareResolveParams\<close> leaves \<^verbatim>\<open>requests[reqIndices[0]]\<close> current, and a call of
    \<^verbatim>\<open>Walker\<close> that returns no error leaves \<^verbatim>\<open>requests[reqIndices[keyIdx]]\<close> current when
    it changes \<^verbatim>\<open>keyIdx\<close>, and the current request as it is otherwise.
\<close>

theorem resolver_checks_hash:
  "(\<forall>newIdx k v tr tr1 i.
        newIdx \<noteq> keyIdx tr \<and>
        advance R [] tr = Return tr1 \<and>
        hb_hasRoot R (tr_hb tr1) \<and>
        currentReq tr1 = Some i \<and>
        i < length (requests tr1) \<and>
        resolveHash (requests tr1 ! i) \<noteq> [] \<and>
        resolveHash (requests tr1 ! i) \<noteq> hb_rootHash R (tr_hb tr1)
        \<longrightarrow>
        Walker R newIdx k v tr = Return ((False, Some (MismatchingHash (resolveHash (requests tr1 ! i)) (hb_rootHash R (tr_hb tr1)))), tr1) \<and>
        parentTries tr1 = parentTries tr)
   \<and> (\<forall>newIdx k v tr tr1 i.
        newIdx \<noteq> keyIdx tr \<and>
        advance R [] tr = Return tr1 \<and>
        hb_hasRoot R (tr_hb tr1) \<and>
        currentReq tr1 = Some i \<and>
        i < length (requests tr1) \<and>
        resolveHash (requests tr1 ! i) = hb_rootHash R (tr_hb tr1) \<and>
        resolvePos (requests tr1 ! i) \<le> length (resolveHex (requests tr1 ! i)) \<and>
        newIdx < length (reqIndices tr) \<and>
        reqIndices tr ! newIdx < length (requests tr) \<and>
        newIdx < length (rss tr)
        \<longrightarrow>
        (\<exists>r tr'. Walker R newIdx k v tr = Return (r, tr') \<and>
           parentTries tr' = (parentTries tr)
                (req_t (requests tr1 ! i) :=
                   t_hook R (parentTries tr (req_t (requests tr1 ! i)))
                     (take (resolvePos (requests tr1 ! i)) (resolveHex (requests tr1 ! i)))
                     (hb_root R (tr_hb tr1)))))
   \<and> (\<forall>tr keys bits tr0 d blockNo es1 newIdx k v es2 s s1 i.
        PrepareResolveParams R tr = Return ((keys, bits), tr0) \<and>
        resolver_ranges R d blockNo keys bits tr0 = Inr (es1 @ (newIdx, k, v) # es2) \<and>
        multiwalk_loop es1 (Walker R) tr0 = Return (None, s) \<and>
        newIdx \<noteq> keyIdx s \<and>
        advance R [] s = Return s1 \<and>
        hb_hasRoot R (tr_hb s1) \<and>
        currentReq s1 = Some i \<and>
        i < length (requests s1) \<and>
        resolveHash (requests s1 ! i) \<noteq> [] \<and>
        resolveHash (requests s1 ! i) \<noteq> hb_rootHash R (tr_hb s1)
        \<longrightarrow>
        ResolveWithDb R (Some d) blockNo tr =
          Return (Some (MismatchingHash (resolveHash (requests s1 ! i)) (hb_rootHash R (tr_hb s1))),
                  s1\<lparr>tr_prec := tr_curr s1, tr_curr := [], tr_succ := []\<rparr>) \<and>
        parentTries s1 = parentTries s)
   \<and> (\<forall>tr keys bits tr0 d blockNo err s s1 i.
        PrepareResolveParams R tr = Return ((keys, bits), tr0) \<and>
        MultiWalk (resolver_ranges R d blockNo keys bits tr0) (Walker R) tr0 = Return (err, s) \<and>
        advance R [] s = Return s1 \<and>
        hb_hasRoot R (tr_hb s1) \<and>
        currentReq s1 = Some i \<and>
        i < length (requests s1) \<and>
        resolveHash (requests s1 ! i) \<noteq> [] \<and>
        resolveHash (requests s1 ! i) \<noteq> hb_rootHash R (tr_hb s1)
        \<longrightarrow>
        ResolveWithDb R (Some d) blockNo tr = Return (Some (MismatchingHash (resolveHash (requests s1 ! i)) (hb_rootHash R (tr_hb s1))), s1) \<and>
        parentTries s1 = parentTries s)
   \<and> (\<forall>tr keys bits tr0 d blockNo err s s1 i.
        PrepareResolveParams R tr = Return ((keys, bits), tr0) \<and>
        MultiWalk (resolver_ranges R d blockNo keys bits tr0) (Walker R) tr0 = Return (err, s) \<and>
        advance R [] s = Return s1 \<and>
        hb_hasRoot R (tr_hb s1) \<and>
        currentReq s1 = Some i \<and>
        i < length (requests s1) \<and>
        resolveHash (requests s1 ! i) = hb_rootHash R (tr_hb s1) \<and>
        resolvePos (requests s1 ! i) \<le> length (resolveHex (requests s1 ! i))
        \<longrightarrow>
        (\<exists>s2. ResolveWithDb R (Some d) blockNo tr = Return (err, s2) \<and>
           parentTries s2 = (parentTries s)
                (req_t (requests s1 ! i) :=
                   t_hook R (t_touchAll R (parentTries s (req_t (requests s1 ! i))) (hb_root R (tr_hb s1))
                        (take (resolvePos (requests s1 ! i)) (resolveHex (requests s1 ! i))) False)
                     (take (resolvePos (requests s1 ! i)) (resolveHex (requests s1 ! i)))
                     (hb_root R (tr_hb s1)))))
   \<and> (\<forall>tr kb tr0.
        PrepareResolveParams R tr = Return (kb, tr0) \<and> requests tr \<noteq> []
        \<longrightarrow>
        reqIndices tr0 \<noteq> [] \<and> currentReq tr0 = Some (reqIndices tr0 ! 0) \<and> keyIdx tr0 = keyIdx tr)
   \<and> (\<forall>newIdx k v tr goOn tr'.
        Walker R newIdx k v tr = Return ((goOn, None), tr')
        \<longrightarrow>
        reqIndices tr' = reqIndices tr \<and> keyIdx tr' = newIdx \<and>
        currentReq tr' = (if newIdx = keyIdx tr then currentReq tr else Some (reqIndices tr ! newIdx)))"
proof -
  have part1: "newIdx \<noteq> keyIdx tr \<and>
        advance R [] tr = Return tr1 \<and>
        hb_hasRoot R (tr_hb tr1) \<and>
        currentReq tr1 = Some i \<and>
        i < length (requests tr1) \<and>
        resolveHash (requests tr1 ! i) \<noteq> [] \<and>
        resolveHash (requests tr1 ! i) \<noteq> hb_rootHash R (tr_hb tr1)
        \<Longrightarrow>
        Walker R newIdx k v tr = Return ((False, Some (MismatchingHash (resolveHash (requests tr1 ! i)) (hb_rootHash R (tr_hb tr1)))), tr1) \<and>
        parentTries tr1 = parentTries tr"
    for newIdx k v tr tr1 i
    apply (elim conjE)
    apply (intro conjI)
     apply (rule Walker_mismatch; assumption)
    apply (rule advance_frame(1); assumption)
    done
  have part2: "newIdx \<noteq> keyIdx tr \<and>
        advance R [] tr = Return tr1 \<and>
        hb_hasRoot R (tr_hb tr1) \<and>
        currentReq tr1 = Some i \<and>
        i < length (requests tr1) \<and>
        resolveHash (requests tr1 ! i) = hb_rootHash R (tr_hb tr1) \<and>
        resolvePos (requests tr1 ! i) \<le> length (resolveHex (requests tr1 ! i)) \<and>
        newIdx < length (reqIndices tr) \<and>
        reqIndices tr ! newIdx < length (requests tr) \<and>
        newIdx < length (rss tr)
        \<Longrightarrow>
        (\<exists>r tr'. Walker R newIdx k v tr = Return (r, tr') \<and>
           parentTries tr' = (parentTries tr)
                (req_t (requests tr1 ! i) :=
                   t_hook R (parentTries tr (req_t (requests tr1 ! i)))
                     (take (resolvePos (requests tr1 ! i)) (resolveHex (requests tr1 ! i)))
                     (hb_root R (tr_hb tr1))))"
    for newIdx k v tr tr1 i
    by (elim conjE) (rule Walker_match; assumption)
  have part3: "PrepareResolveParams R tr = Return ((keys, bits), tr0) \<and>
        resolver_ranges R d blockNo keys bits tr0 = Inr (es1 @ (newIdx, k, v) # es2) \<and>
        multiwalk_loop es1 (Walker R) tr0 = Return (None, s) \<and>
        newIdx \<noteq> keyIdx s \<and>
        advance R [] s = Return s1 \<and>
        hb_hasRoot R (tr_hb s1) \<and>
        currentReq s1 = Some i \<and>
        i < length (requests s1) \<and>
        resolveHash (requests s1 ! i) \<noteq> [] \<and>
        resolveHash (requests s1 ! i) \<noteq> hb_rootHash R (tr_hb s1)
        \<Longrightarrow>
        ResolveWithDb R (Some d) blockNo tr =
          Return (Some (MismatchingHash (resolveHash (requests s1 ! i)) (hb_rootHash R (tr_hb s1))),
                  s1\<lparr>tr_prec := tr_curr s1, tr_curr := [], tr_succ := []\<rparr>) \<and>
        parentTries s1 = parentTries s"
    for tr keys bits tr0 d blockNo es1 newIdx k v es2 s s1 i
    by (elim conjE) (rule resolve_walker_mismatch; assumption)
  have part4: "PrepareResolveParams R tr = Return ((keys, bits), tr0) \<and>
        MultiWalk (resolver_ranges R d blockNo keys bits tr0) (Walker R) tr0 = Return (err, s) \<and>
        advance R [] s = Return s1 \<and>
        hb_hasRoot R (tr_hb s1) \<and>
        currentReq s1 = Some i \<and>
        i < length (requests s1) \<and>
        resolveHash (requests s1 ! i) \<noteq> [] \<and>
        resolveHash (requests s1 ! i) \<noteq> hb_rootHash R (tr_hb s1)
        \<Longrightarrow>
        ResolveWithDb R (Some d) blockNo tr = Return (Some (MismatchingHash (resolveHash (requests s1 ! i)) (hb_rootHash R (tr_hb s1))), s1) \<and>
        parentTries s1 = parentTries s"
    for tr keys bits tr0 d blockNo err s s1 i
    by (elim conjE) (rule resolve_final_mismatch; assumption)
  have part5: "PrepareResolveParams R tr = Return ((keys, bits), tr0) \<and>
        MultiWalk (resolver_ranges R d blockNo keys bits tr0) (Walker R) tr0 = Return (err, s) \<and>
        advance R [] s = Return s1 \<and>
        hb_hasRoot R (tr_hb s1) \<and>
        currentReq s1 = Some i \<and>
        i < length (requests s1) \<and>
        resolveHash (requests s1 ! i) = hb_rootHash R (tr_hb s1) \<and>
        resolvePos (requests s1 ! i) \<le> length (resolveHex (requests s1 ! i))
        \<Longrightarrow>
        (\<exists>s2. ResolveWithDb R (Some d) blockNo tr = Return (err, s2) \<and>
           parentTries s2 = (parentTries s)
                (req_t (requests s1 ! i) :=
                   t_hook R (t_touchAll R (parentTries s (req_t (requests s1 ! i))) (hb_root R (tr_hb s1))
                        (take (resolvePos (requests s1 ! i)) (resolveHex (requests s1 ! i))) False)
                     (take (resolvePos (requests s1 ! i)) (resolveHex (requests s1 ! i)))
                     (hb_root R (tr_hb s1))))"
    for tr keys bits tr0 d blockNo err s s1 i
    by (elim conjE) (rule resolve_final_match; assumption)
  have part6: "PrepareResolveParams R tr = Return (kb, tr0) \<and> requests tr \<noteq> []
        \<Longrightarrow>
        reqIndices tr0 \<noteq> [] \<and> currentReq tr0 = Some (reqIndices tr0 ! 0) \<and> keyIdx tr0 = keyIdx tr"
    for tr kb tr0
    by (elim conjE) (rule prepare_current; assumption)
  have part7: "Walker R newIdx k v tr = Return ((goOn, None), tr')
        \<Longrightarrow>
        reqIndices tr' = reqIndices tr \<and> keyIdx tr' = newIdx \<and>
        currentReq tr' = (if newIdx = keyIdx tr then currentReq tr else Some (reqIndices tr ! newIdx))"
    for newIdx k v tr goOn tr'
    by (rule Walker_current)
  show ?thesis
    apply (rule conjI, intro allI impI, erule part1)
    apply (rule conjI, intro allI impI, erule part2)
    apply (rule conjI, intro allI impI, erule part3)
    apply (rule conjI, intro allI impI, erule part4)
    apply (rule conjI, intro allI impI, erule part5)
    apply (rule conjI, intro allI impI, erule part6)
    apply (intro allI impI, erule part7)
    done
qed

theorem resolver_checks_hash_witness:
  "1 \<noteq> keyIdx (resolver_first [6] [8])
   \<and> advance sample_renv [] (resolver_first [6] [8]) = Return (resolver_first_closed [6] [8])
   \<and> hb_hasRoot sample_renv (tr_hb (resolver_first_closed [6] [8]))
   \<and> currentReq (resolver_first_closed [6] [8]) = Some 0
   \<and> resolveHash (requests (resolver_first_closed [6] [8]) ! 0) = [6]
   \<and> hb_rootHash sample_renv (tr_hb (resolver_first_closed [6] [8])) = [7]
   \<and> Walker sample_renv 1 [32] [8] (resolver_first [6] [8]) =
       Return ((False, Some (MismatchingHash [6] [7])), resolver_first_closed [6] [8])
   \<and> parentTries (resolver_first_closed [6] [8]) = parentTries (resolver_first [6] [8])
   \<and> PrepareResolveParams sample_renv (sample_resolver [reqB [8], reqA [6]]) =
       Return (([[1], [2]], [4, 4]), resolver_prepared [6] [8])
   \<and> ResolveWithDb sample_renv (Some sample_entries) 1 (sample_resolver [reqB [8], reqA [6]]) =
       Return (Some (MismatchingHash [6] [7]),
         (resolver_first_closed [6] [8])\<lparr>tr_prec := [0, 16], tr_curr := [], tr_succ := []\<rparr>)
   \<and> (\<exists>r tr'. Walker sample_renv 1 [32] [8] (resolver_first [7] [9]) = Return (r, tr') \<and>
         parentTries tr' = (\<lambda>t. [])(0 := [([1], [([16], [7])])]))
   \<and> ResolveWithDb sample_renv (Some sample_entries) 1 (sample_resolver [reqB [9], reqA [7]]) =
       Return (Some (MismatchingHash [9] [8]), resolver_second_closed [7] [9])
   \<and> (\<exists>s2. ResolveWithDb sample_renv (Some sample_entries) 1 (sample_resolver [reqB [8], reqA [7]]) =
         Return (None, s2) \<and>
         parentTries s2 = (\<lambda>t. [])(0 := [([1], [([16], [7])]), ([2], [([32], [8])])]))
   \<and> currentReq (resolver_prepared [6] [8]) = Some (reqIndices (resolver_prepared [6] [8]) ! 0)
   \<and> Walker sample_renv 1 [32] [8] (resolver_first [7] [9]) = Return ((True, None), resolver_second [7] [9])
   \<and> currentReq (resolver_second [7] [9]) = Some (reqIndices (resolver_first [7] [9]) ! 1)"
proof -
  note inst = resolver_checks_hash[where R = sample_renv]
  note F = first_closed_facts
  note S = second_closed_facts
  have k: "1 \<noteq> keyIdx (resolver_first hA hB)" for hA hB by (simp add: F)
  have ne: "[6] \<noteq> ([] :: bytes)" "[6] \<noteq> ([7] :: bytes)" "[9] \<noteq> ([] :: bytes)" "[9] \<noteq> ([8] :: bytes)"
    by simp_all
  have c1: "Walker sample_renv 1 [32] [8] (resolver_first [6] [8]) =
       Return ((False, Some (MismatchingHash (resolveHash (requests (resolver_first_closed [6] [8]) ! 0))
          (hb_rootHash sample_renv (tr_hb (resolver_first_closed [6] [8]))))), resolver_first_closed [6] [8])
       \<and> parentTries (resolver_first_closed [6] [8]) = parentTries (resolver_first [6] [8])"
    by (rule inst[THEN conjunct1, rule_format])
      (intro conjI k sample_first_closed F(2,3,4), simp_all only: F ne, simp_all)
  have c2: "\<exists>r tr'. Walker sample_renv 1 [32] [8] (resolver_first [7] [9]) = Return (r, tr') \<and>
       parentTries tr' = (parentTries (resolver_first [7] [9]))
         (req_t (requests (resolver_first_closed [7] [9]) ! 0) :=
            t_hook sample_renv (parentTries (resolver_first [7] [9])
                (req_t (requests (resolver_first_closed [7] [9]) ! 0)))
              (take (resolvePos (requests (resolver_first_closed [7] [9]) ! 0))
                 (resolveHex (requests (resolver_first_closed [7] [9]) ! 0)))
              (hb_root sample_renv (tr_hb (resolver_first_closed [7] [9]))))"
    by (rule inst[THEN conjunct2, THEN conjunct1, rule_format])
      (intro conjI k sample_first_closed F(2,3,4), simp_all add: F)
  have c3: "ResolveWithDb sample_renv (Some sample_entries) 1 (sample_resolver [reqB [8], reqA [6]]) =
       Return (Some (MismatchingHash (resolveHash (requests (resolver_first_closed [6] [8]) ! 0))
          (hb_rootHash sample_renv (tr_hb (resolver_first_closed [6] [8])))),
         (resolver_first_closed [6] [8])\<lparr>tr_prec := tr_curr (resolver_first_closed [6] [8]),
            tr_curr := [], tr_succ := []\<rparr>)
       \<and> parentTries (resolver_first_closed [6] [8]) = parentTries (resolver_first [6] [8])"
    by (rule inst[THEN conjunct2, THEN conjunct2, THEN conjunct1, rule_format,
          where keys = "[[1], [2]]" and bits = "[4, 4]" and ?tr0.0 = "resolver_prepared [6] [8]"
            and ?es1.0 = "[(0, [16], [7])]" and newIdx = 1 and k = "[32]" and v = "[8]"
            and ?es2.0 = "[]"])
      (intro conjI sample_prep sample_ranges sample_first k sample_first_closed F(2,3,4),
       simp_all only: F ne, simp_all)
  have c4: "ResolveWithDb sample_renv (Some sample_entries) 1 (sample_resolver [reqB [9], reqA [7]]) =
       Return (Some (MismatchingHash (resolveHash (requests (resolver_second_closed [7] [9]) ! 1))
          (hb_rootHash sample_renv (tr_hb (resolver_second_closed [7] [9])))),
         resolver_second_closed [7] [9])
       \<and> parentTries (resolver_second_closed [7] [9]) = parentTries (resolver_second [7] [9])"
    by (rule inst[THEN conjunct2, THEN conjunct2, THEN conjunct2, THEN conjunct1, rule_format,
          where keys = "[[1], [2]]" and bits = "[4, 4]" and ?tr0.0 = "resolver_prepared [7] [9]"
            and err = None])
      (intro conjI sample_prep sample_walk sample_second_closed, simp_all add: S)
  have c5: "\<exists>s2. ResolveWithDb sample_renv (Some sample_entries) 1 (sample_resolver [reqB [8], reqA [7]]) =
         Return (None, s2) \<and>
       parentTries s2 = (parentTries (resolver_second [7] [8]))
         (req_t (requests (resolver_second_closed [7] [8]) ! 1) :=
            t_hook sample_renv
              (t_touchAll sample_renv (parentTries (resolver_second [7] [8])
                   (req_t (requests (resolver_second_closed [7] [8]) ! 1)))
                 (hb_root sample_renv (tr_hb (resolver_second_closed [7] [8])))
                 (take (resolvePos (requests (resolver_second_closed [7] [8]) ! 1))
                    (resolveHex (requests (resolver_second_closed [7] [8]) ! 1))) False)
              (take (resolvePos (requests (resolver_second_closed [7] [8]) ! 1))
                 (resolveHex (requests (resolver_second_closed [7] [8]) ! 1)))
              (hb_root sample_renv (tr_hb (resolver_second_closed [7] [8]))))"
    by (rule inst[THEN conjunct2, THEN conjunct2, THEN conjunct2, THEN conjunct2, THEN conjunct1,
          rule_format,
          where keys = "[[1], [2]]" and bits = "[4, 4]" and ?tr0.0 = "resolver_prepared [7] [8]"])
      (intro conjI sample_prep sample_walk sample_second_closed, simp_all add: S)
  from c2 have c2': "\<exists>r tr'. Walker sample_renv 1 [32] [8] (resolver_first [7] [9]) = Return (r, tr') \<and>
         parentTries tr' = (\<lambda>t. [])(0 := [([1], [([16], [7])])])"
    by (simp add: F sample_hook)
  from c5 have c5': "\<exists>s2. ResolveWithDb sample_renv (Some sample_entries) 1 (sample_resolver [reqB [8], reqA [7]]) =
         Return (None, s2) \<and>
         parentTries s2 = (\<lambda>t. [])(0 := [([1], [([16], [7])]), ([2], [([32], [8])])])"
    by (simp add: S sample_hook)
  have nonempty: "requests (sample_resolver [reqB [8], reqA [6]]) \<noteq> []"
    by (simp add: sample_resolver_def)
  note c6 = inst[THEN conjunct2, THEN conjunct2, THEN conjunct2, THEN conjunct2, THEN conjunct2,
      THEN conjunct1, rule_format, OF conjI, OF sample_prep nonempty]
  note c7 = inst[THEN conjunct2, THEN conjunct2, THEN conjunct2, THEN conjunct2, THEN conjunct2,
      THEN conjunct2, rule_format, OF sample_second]
  from c6 have c6': "currentReq (resolver_prepared [6] [8]) = Some (reqIndices (resolver_prepared [6] [8]) ! 0)"
    by blast
  from c7[of "[9]"]
  have c7': "currentReq (resolver_second [7] [9]) = Some (reqIndices (resolver_first [7] [9]) ! 1)"
    by (simp add: F)
  have first_part: "1 \<noteq> keyIdx (resolver_first [6] [8])
   \<and> advance sample_renv [] (resolver_first [6] [8]) = Return (resolver_first_closed [6] [8])
   \<and> hb_hasRoot sample_renv (tr_hb (resolver_first_closed [6] [8]))
   \<and> currentReq (resolver_first_closed [6] [8]) = Some 0
   \<and> resolveHash (requests (resolver_first_closed [6] [8]) ! 0) = [6]
   \<and> hb_rootHash sample_renv (tr_hb (resolver_first_closed [6] [8])) = [7]
   \<and> Walker sample_renv 1 [32] [8] (resolver_first [6] [8]) =
       Return ((False, Some (MismatchingHash [6] [7])), resolver_first_closed [6] [8])
   \<and> parentTries (resolver_first_closed [6] [8]) = parentTries (resolver_first [6] [8])
   \<and> PrepareResolveParams sample_renv (sample_resolver [reqB [8], reqA [6]]) =
       Return (([[1], [2]], [4, 4]), resolver_prepared [6] [8])
   \<and> ResolveWithDb sample_renv (Some sample_entries) 1 (sample_resolver [reqB [8], reqA [6]]) =
       Return (Some (MismatchingHash [6] [7]),
         (resolver_first_closed [6] [8])\<lparr>tr_prec := [0, 16], tr_curr := [], tr_succ := []\<rparr>)
   \<and> (\<exists>r tr'. Walker sample_renv 1 [32] [8] (resolver_first [7] [9]) = Return (r, tr') \<and>
         parentTries tr' = (\<lambda>t. [])(0 := [([1], [([16], [7])])]))
   \<and> ResolveWithDb sample_renv (Some sample_entries) 1 (sample_resolver [reqB [9], reqA [7]]) =
       Return (Some (MismatchingHash [9] [8]), resolver_second_closed [7] [9])
   \<and> (\<exists>s2. ResolveWithDb sample_renv (Some sample_entries) 1 (sample_resolver [reqB [8], reqA [7]]) =
         Return (None, s2) \<and>
         parentTries s2 = (\<lambda>t. [])(0 := [([1], [([16], [7])]), ([2], [([32], [8])])]))"
    using c1 c3 c4 c2' c5'
    by (intro conjI k sample_first_closed F(2,3) sample_prep)
      (simp_all add: F S)
  from first_part c6' sample_second[of "[9]"] c7' show ?thesis
    by (simp only: conj_assoc) blast
qed

end
